theory Spec2Isabelle
  imports Main
begin

section \<open>The Stripe element controller (element.directive.ts)\<close>

text \<open>
  \<^verbatim>\<open>StripeElementDirective\<close> adapts a Stripe element, created asynchronously by the
  enclosing \<^verbatim>\<open>StripeElementsDirective\<close>, to an Angular directive.  The class is a
  small reactive program: a \<^verbatim>\<open>Subject\<close> (\<^verbatim>\<open>init$\<close>) feeds the pipeline
  \<^verbatim>\<open>take(1), switchMap(create ... tap), shareReplay(1)\<close>, and the public methods
  either act on the stored instance or subscribe to that pipeline.

  The embedding is a state machine.  The state is the record \<open>ctrl\<close>: the private
  fields of the class together with the state the RxJS operators keep between calls.
  An event is either a method call of the class or a notification of one of its
  collaborators (the observable returned by \<^verbatim>\<open>elements.create\<close>, the element firing
  \<^verbatim>\<open>ready\<close>, \<^verbatim>\<open>focus\<close> or \<^verbatim>\<open>blur\<close>).  Each step returns the new state and the list
  of calls the controller makes on the outside world, in order.  JavaScript runs each
  of these callbacks to completion, so one event is one atomic step.

  The calls on collaborators are recorded, not interpreted: what \<^verbatim>\<open>mount\<close>, \<^verbatim>\<open>focus\<close> or
  \<^verbatim>\<open>destroy\<close> do inside the element, a throw from them included, belongs to the element.
  The observable returned by \<^verbatim>\<open>create\<close> is any observable: it may emit several
  elements, complete or fail, and its notifications are events of their own (an
  observable that emits while \<^verbatim>\<open>switchMap\<close> subscribes to it is an \<^verbatim>\<open>init\<close> followed by
  the emission).  The class never assigns \<^verbatim>\<open>_value\<close> and never emits on \<^verbatim>\<open>valueChange\<close>
  or \<^verbatim>\<open>escapeChange\<close>; subclasses do, and they are not part of this theory.
\<close>

subsection \<open>Values of the outside world\<close>

text \<open>A StripeElement object is known by its identity.\<close>

type_synonym handle = nat

text \<open>\<^verbatim>\<open>StripeError\<close> and \<^verbatim>\<open>StripeElementChangeEvent\<close>: the fields the getters read.
  The \<^verbatim>\<open>error\<close> field of a change event is \<^verbatim>\<open>undefined\<close> when the element is valid.\<close>

record stripe_error =
  err_type :: string
  err_code :: string
  err_message :: string

record change_event =
  ce_empty :: bool
  ce_complete :: bool
  ce_error :: "stripe_error option"

text \<open>The functions handed to \<^verbatim>\<open>forward\<close>: \<^verbatim>\<open>instance => instance.focus()\<close> and its
  three siblings (lines 111, 114, 117 and 151).\<close>

datatype fwd = DoFocus | DoBlur | DoClear | DoDestroy

datatype evname = EvReady | EvFocus | EvBlur

text \<open>What the controller does to its collaborators: the call of the container's
  \<^verbatim>\<open>create(elementType, options)\<close>, the calls on an element (\<^verbatim>\<open>on\<close>, \<^verbatim>\<open>mount\<close> and the
  forwarded methods), the emissions on its own outputs, and an error that reaches a
  subscriber with no error callback, which RxJS reports to the host.\<close>

datatype 'o effect =
    Create string 'o
  | Hook handle evname
  | Mount handle nat
  | Call handle fwd
  | EmitReady bool
  | EmitFocus
  | EmitBlur
  | ReportError

text \<open>The events: calls of \<^verbatim>\<open>init\<close>, \<^verbatim>\<open>focus\<close>, \<^verbatim>\<open>blur\<close>, \<^verbatim>\<open>clear\<close>, \<^verbatim>\<open>disable\<close> and
  \<^verbatim>\<open>ngOnDestroy\<close>; the three notifications of the observable that \<^verbatim>\<open>create\<close>
  returned; an element firing one of the hooked events.\<close>

datatype 'o event =
    Init 'o
  | CallFocus
  | CallBlur
  | CallClear
  | CallDisable bool
  | NgOnDestroy
  | CreateNext handle
  | CreateComplete
  | CreateError
  | Fire handle evname

subsection \<open>The state\<close>

text \<open>A subscriber of the replay subject inside \<^verbatim>\<open>shareReplay(1)\<close>: the constructor's
  \<^verbatim>\<open>this.element$.subscribe()\<close> (line 79), or a \<^verbatim>\<open>take(1)\<close> subscription made by
  \<^verbatim>\<open>forward\<close> (line 104) that waits to run its function.\<close>

datatype subscriber = KeepAlive | Queued fwd

text \<open>
  The fields \<open>p_instance\<close>, \<open>p_value\<close>, \<open>p_ready\<close> and \<open>p_focused\<close> are the private
  \<^verbatim>\<open>_instance\<close>, \<^verbatim>\<open>_value\<close>, \<^verbatim>\<open>_ready\<close> and \<^verbatim>\<open>_focused\<close>; \<open>None\<close> is \<^verbatim>\<open>undefined\<close>.
  \<open>elementType\<close> and \<open>nativeElement\<close> are the constructor's arguments captured by the
  pipeline.  The rest is operator state:
  \<^item> \<open>init_observed\<close>: the pipeline's \<^verbatim>\<open>take(1)\<close> is subscribed to \<^verbatim>\<open>init$\<close>;
  \<^item> \<open>inner_active\<close>: \<^verbatim>\<open>switchMap\<close> is subscribed to the observable of \<^verbatim>\<open>create\<close>;
  \<^item> \<open>replay\<close>, \<open>observers\<close>: buffer (size 1) and observers of the replay subject;
  \<^item> \<open>hasError\<close>, \<open>isComplete\<close>: the two flags of \<^verbatim>\<open>shareReplay\<close>;
  \<^item> \<open>sub_closed\<close>: \<^verbatim>\<open>this.sub.closed\<close>;
  \<^item> \<open>hooks\<close>: the elements on which the three callbacks of lines 66 to 68 were
    registered, one entry for each run of the \<^verbatim>\<open>tap\<close>.
\<close>

record ctrl =
  elementType :: string
  nativeElement :: nat
  p_instance :: "handle option"
  p_value :: "change_event option"
  p_ready :: "bool option"
  p_focused :: "bool option"
  init_observed :: bool
  inner_active :: bool
  replay :: "handle option"
  observers :: "subscriber list"
  hasError :: bool
  isComplete :: bool
  sub_closed :: bool
  hooks :: "handle list"

subsection \<open>The getters\<close>

text \<open>
  The getters of lines 30 to 47 use JavaScript's truthiness, \<^verbatim>\<open>!\<close>, \<^verbatim>\<open>&&\<close> and \<^verbatim>\<open>||\<close>.
  \<^verbatim>\<open>a && b\<close> is \<^verbatim>\<open>a\<close> when \<^verbatim>\<open>a\<close> is falsy and \<^verbatim>\<open>b\<close> otherwise; \<^verbatim>\<open>a || b\<close> is \<^verbatim>\<open>a\<close> when
  \<^verbatim>\<open>a\<close> is truthy and \<^verbatim>\<open>b\<close> otherwise; the right operand is evaluated only when it is
  the result.  Reading a property of \<^verbatim>\<open>undefined\<close> throws a TypeError, so a property
  read is a computation that can fail, and the right operand is passed unevaluated.
\<close>

datatype jsval = JUndefined | JNull | JBool bool | JEvent change_event | JError stripe_error

datatype error = UsageError | TypeError

fun truthy :: "jsval \<Rightarrow> bool" where
  "truthy JUndefined = False"
| "truthy JNull = False"
| "truthy (JBool b) = b"
| "truthy (JEvent v) = True"
| "truthy (JError e) = True"

definition js_not :: "jsval \<Rightarrow> jsval" where
  "js_not a = JBool (\<not> truthy a)"

definition js_and :: "jsval \<Rightarrow> (unit \<Rightarrow> error + jsval) \<Rightarrow> error + jsval" where
  "js_and a b = (if truthy a then b () else Inr a)"

definition js_or :: "error + jsval \<Rightarrow> (unit \<Rightarrow> error + jsval) \<Rightarrow> error + jsval" where
  "js_or a b = (case a of Inl e \<Rightarrow> Inl e | Inr v \<Rightarrow> if truthy v then Inr v else b ())"

definition this_value :: "ctrl \<Rightarrow> jsval" where
  "this_value s = (case p_value s of None \<Rightarrow> JUndefined | Some v \<Rightarrow> JEvent v)"

definition prop_empty :: "jsval \<Rightarrow> error + jsval" where
  "prop_empty a = (case a of JEvent v \<Rightarrow> Inr (JBool (ce_empty v)) | JBool b \<Rightarrow> Inr JUndefined
     | JError e \<Rightarrow> Inr JUndefined | _ \<Rightarrow> Inl TypeError)"

definition prop_complete :: "jsval \<Rightarrow> error + jsval" where
  "prop_complete a = (case a of JEvent v \<Rightarrow> Inr (JBool (ce_complete v)) | JBool b \<Rightarrow> Inr JUndefined
     | JError e \<Rightarrow> Inr JUndefined | _ \<Rightarrow> Inl TypeError)"

definition prop_error :: "jsval \<Rightarrow> error + jsval" where
  "prop_error a = (case a of
       JEvent v \<Rightarrow> Inr (case ce_error v of None \<Rightarrow> JUndefined | Some e \<Rightarrow> JError e)
     | JBool b \<Rightarrow> Inr JUndefined
     | JError e \<Rightarrow> Inr JUndefined | _ \<Rightarrow> Inl TypeError)"

text \<open>\<^verbatim>\<open>get empty() { return !this._value || this._value.empty; }\<close>\<close>

definition get_empty :: "ctrl \<Rightarrow> error + jsval" where
  "get_empty s = js_or (Inr (js_not (this_value s))) (\<lambda>_. prop_empty (this_value s))"

text \<open>\<^verbatim>\<open>get complete() { return !!this._value && this._value.complete; }\<close>\<close>

definition get_complete :: "ctrl \<Rightarrow> error + jsval" where
  "get_complete s = js_and (js_not (js_not (this_value s))) (\<lambda>_. prop_complete (this_value s))"

text \<open>\<^verbatim>\<open>get error() { return !!this._value && this._value.error || null; }\<close>\<close>

definition get_error :: "ctrl \<Rightarrow> error + jsval" where
  "get_error s =
     js_or (js_and (js_not (js_not (this_value s))) (\<lambda>_. prop_error (this_value s))) (\<lambda>_. Inr JNull)"

text \<open>\<^verbatim>\<open>get ready() { return !!this._ready; }\<close> and \<^verbatim>\<open>get focused()\<close>, on a field that is
  \<^verbatim>\<open>undefined\<close> or a boolean; \<^verbatim>\<open>get disabled() { return false; }\<close>;
  \<^verbatim>\<open>get instance()\<close> and \<^verbatim>\<open>get value()\<close> return the field.\<close>

definition flag :: "bool option \<Rightarrow> jsval" where
  "flag f = (case f of None \<Rightarrow> JUndefined | Some b \<Rightarrow> JBool b)"

definition get_ready :: "ctrl \<Rightarrow> bool" where
  "get_ready s = truthy (js_not (js_not (flag (p_ready s))))"

definition get_focused :: "ctrl \<Rightarrow> bool" where
  "get_focused s = truthy (js_not (js_not (flag (p_focused s))))"

definition get_disabled :: "ctrl \<Rightarrow> bool" where
  "get_disabled s = False"

definition get_instance :: "ctrl \<Rightarrow> handle option" where
  "get_instance s = p_instance s"

definition get_value :: "ctrl \<Rightarrow> change_event option" where
  "get_value s = p_value s"

subsection \<open>The constructor\<close>

text \<open>
  Lines 49 to 80.  The container is \<open>None\<close> when the argument is \<^verbatim>\<open>null\<close> or
  \<^verbatim>\<open>undefined\<close>; then the constructor throws before it builds the pipeline.  Otherwise
  it builds the pipeline and subscribes to it: \<^verbatim>\<open>shareReplay\<close> creates its replay
  subject, adds the subscriber and subscribes to its source, whose \<^verbatim>\<open>take(1)\<close>
  subscribes to \<^verbatim>\<open>init$\<close>.  The constructor calls nothing outside: the result carries
  the list of its effects, which is empty on both paths.  \<open>created\<close> is the object
  that lines 57 to 79 leave.
\<close>

definition created :: "string \<Rightarrow> nat \<Rightarrow> ctrl" where
  "created ty ref = \<lparr> elementType = ty, nativeElement = ref,
          p_instance = None, p_value = None, p_ready = None, p_focused = None,
          init_observed = True, inner_active = False,
          replay = None, observers = [KeepAlive],
          hasError = False, isComplete = False, sub_closed = False, hooks = [] \<rparr>"

definition constructor :: "string \<Rightarrow> nat option \<Rightarrow> nat \<Rightarrow> 'o effect list \<times> (error + ctrl)" where
  "constructor ty elements ref =
     (case elements of
        None \<Rightarrow> ([], Inl UsageError)
      | Some c \<Rightarrow> ([], Inr (created ty ref)))"

subsection \<open>The methods and the pipeline\<close>

text \<open>
  \<^verbatim>\<open>this.element$.pipe(take(1)).subscribe(instance => fn(instance))\<close>, line 104.
  \<^verbatim>\<open>shareReplay\<close> serves a new subscriber as follows.  After an error of its source
  (\<open>hasError\<close>) it starts afresh: a new replay subject with this one subscriber, and a
  new subscription to the source, whose \<^verbatim>\<open>take(1)\<close> subscribes to \<^verbatim>\<open>init$\<close> again
  (in the words of the RxJS documentation, a completed source stays cached forever,
  but an errored source can be retried).
  Otherwise the subscriber joins the current subject, which replays its buffer to it:
  with a buffered element the \<^verbatim>\<open>take(1)\<close> runs the function at once and completes;
  with none it waits, unless the subject has completed.
\<close>

definition subscribe_take1 :: "fwd \<Rightarrow> ctrl \<Rightarrow> ctrl \<times> 'o effect list" where
  "subscribe_take1 fn s =
     (if hasError s then
        (s\<lparr> hasError := False, replay := None, observers := [Queued fn], init_observed := True \<rparr>, [])
      else case replay s of
          Some h \<Rightarrow> (s, [Call h fn])
        | None \<Rightarrow> if isComplete s then (s, [])
                  else (s\<lparr> observers := observers s @ [Queued fn] \<rparr>, []))"

text \<open>\<^verbatim>\<open>forward(fn)\<close>, lines 98 to 105.\<close>

definition forward :: "fwd \<Rightarrow> ctrl \<Rightarrow> ctrl \<times> 'o effect list" where
  "forward fn s =
     (case get_instance s of
        Some h \<Rightarrow> (s, [Call h fn])
      | None \<Rightarrow> subscribe_take1 fn s)"

text \<open>\<^verbatim>\<open>this.sub.unsubscribe()\<close>: nothing on a closed subscription; otherwise the
  subscriber leaves the subject.  \<^verbatim>\<open>shareReplay(1)\<close> does not count references, so
  the subscription to the source stays.\<close>

definition unsubscribe :: "ctrl \<Rightarrow> ctrl" where
  "unsubscribe s =
     (if sub_closed s then s
      else s\<lparr> sub_closed := True, observers := remove1 KeepAlive (observers s) \<rparr>)"

text \<open>\<^verbatim>\<open>ngOnDestroy\<close>, lines 150 to 153.\<close>

definition ngOnDestroy :: "ctrl \<Rightarrow> ctrl \<times> 'o effect list" where
  "ngOnDestroy s = (case forward DoDestroy s of (s1, fx) \<Rightarrow> (unsubscribe s1, fx))"

text \<open>\<^verbatim>\<open>init(options)\<close>, line 94: \<^verbatim>\<open>init$.next(options)\<close>.  A subject with no observer
  drops the value.  The pipeline's \<^verbatim>\<open>take(1)\<close> passes the value on and leaves
  \<^verbatim>\<open>init$\<close>; \<^verbatim>\<open>switchMap\<close> calls \<^verbatim>\<open>elements.create(elementType, options)\<close> and
  subscribes to the observable it returns (line 58).\<close>

definition init :: "'o \<Rightarrow> ctrl \<Rightarrow> ctrl \<times> 'o effect list" where
  "init options s =
     (if init_observed s then
        (s\<lparr> init_observed := False, inner_active := True \<rparr>, [Create (elementType s) options])
      else (s, []))"

text \<open>The body of the \<^verbatim>\<open>tap\<close>, lines 60 to 75.\<close>

definition tap_elm :: "handle \<Rightarrow> ctrl \<Rightarrow> ctrl \<times> 'o effect list" where
  "tap_elm elm s =
     (s\<lparr> hooks := hooks s @ [elm], p_instance := Some elm \<rparr>,
      (case p_instance s of Some p \<Rightarrow> [Call p DoDestroy] | None \<Rightarrow> [])
      @ [Hook elm EvReady, Hook elm EvFocus, Hook elm EvBlur, Mount elm (nativeElement s)])"

text \<open>\<^verbatim>\<open>next\<close> on the replay subject: the value replaces the buffer and goes to each
  observer in order.  A \<^verbatim>\<open>take(1)\<close> subscriber runs its function and unsubscribes;
  the constructor's subscriber has no callback.\<close>

fun deliver :: "handle \<Rightarrow> subscriber list \<Rightarrow> 'o effect list" where
  "deliver h [] = []"
| "deliver h (KeepAlive # os) = deliver h os"
| "deliver h (Queued fn # os) = Call h fn # deliver h os"

definition subject_next :: "handle \<Rightarrow> ctrl \<Rightarrow> ctrl \<times> 'o effect list" where
  "subject_next h s =
     (s\<lparr> replay := Some h, observers := filter (\<lambda>ob. ob = KeepAlive) (observers s) \<rparr>,
      deliver h (observers s))"

text \<open>The observable of \<^verbatim>\<open>create\<close> emits an element: with no subscription of
  \<^verbatim>\<open>switchMap\<close> to it nothing is observed; otherwise the \<^verbatim>\<open>tap\<close> runs and the element
  goes on to \<^verbatim>\<open>shareReplay\<close>.\<close>

definition create_next :: "handle \<Rightarrow> ctrl \<Rightarrow> ctrl \<times> 'o effect list" where
  "create_next elm s =
     (if inner_active s then
        (case tap_elm elm s of (s1, fx1) \<Rightarrow>
           (case subject_next elm s1 of (s2, fx2) \<Rightarrow> (s2, fx1 @ fx2)))
      else (s, []))"

text \<open>The observable of \<^verbatim>\<open>create\<close> completes.  The outer \<^verbatim>\<open>take(1)\<close> has completed
  already, so \<^verbatim>\<open>switchMap\<close> completes, \<^verbatim>\<open>shareReplay\<close> sets \<open>isComplete\<close> and completes
  the subject: every observer is closed and removed, and no function runs.\<close>

definition create_complete :: "ctrl \<Rightarrow> ctrl \<times> 'o effect list" where
  "create_complete s =
     (if inner_active s then
        (s\<lparr> inner_active := False, isComplete := True, observers := [],
            sub_closed := (sub_closed s \<or> KeepAlive \<in> set (observers s)) \<rparr>, [])
      else (s, []))"

text \<open>The observable of \<^verbatim>\<open>create\<close> fails.  \<^verbatim>\<open>shareReplay\<close> sets \<open>hasError\<close> and passes
  the error to the subject; every observer is closed and removed, and since none
  has an error callback each error is reported to the host.\<close>

definition create_error :: "ctrl \<Rightarrow> ctrl \<times> 'o effect list" where
  "create_error s =
     (if inner_active s then
        (s\<lparr> inner_active := False, hasError := True, observers := [],
            sub_closed := (sub_closed s \<or> KeepAlive \<in> set (observers s)) \<rparr>,
         map (\<lambda>ob. ReportError) (observers s))
      else (s, []))"

text \<open>The callbacks of lines 66, 67 and 68.\<close>

definition on_event :: "evname \<Rightarrow> ctrl \<Rightarrow> ctrl \<times> 'o effect list" where
  "on_event ev s =
     (case ev of
        EvReady \<Rightarrow> (s\<lparr> p_ready := Some True \<rparr>, [EmitReady True])
      | EvFocus \<Rightarrow> (s\<lparr> p_focused := Some True \<rparr>, [EmitFocus])
      | EvBlur \<Rightarrow> (s\<lparr> p_focused := Some False \<rparr>, [EmitBlur]))"

text \<open>An element fires an event: the callback runs once for each registration on
  that element.\<close>

fun fire :: "handle \<Rightarrow> evname \<Rightarrow> handle list \<Rightarrow> ctrl \<Rightarrow> ctrl \<times> 'o effect list" where
  "fire h ev [] s = (s, [])"
| "fire h ev (k # ks) s =
     (if k = h then
        (case on_event ev s of (s1, fx1) \<Rightarrow>
           (case fire h ev ks s1 of (s2, fx2) \<Rightarrow> (s2, fx1 @ fx2)))
      else fire h ev ks s)"

text \<open>\<^verbatim>\<open>disable(_: boolean) {}\<close>, line 108, and the dispatch of one event.\<close>

definition disable :: "bool \<Rightarrow> ctrl \<Rightarrow> ctrl \<times> 'o effect list" where
  "disable b s = (s, [])"

fun step :: "ctrl \<Rightarrow> 'o event \<Rightarrow> ctrl \<times> 'o effect list" where
  "step s (Init options) = init options s"
| "step s CallFocus = forward DoFocus s"
| "step s CallBlur = forward DoBlur s"
| "step s CallClear = forward DoClear s"
| "step s (CallDisable b) = disable b s"
| "step s NgOnDestroy = ngOnDestroy s"
| "step s (CreateNext elm) = create_next elm s"
| "step s CreateComplete = create_complete s"
| "step s CreateError = create_error s"
| "step s (Fire h ev) = fire h ev (hooks s) s"

text \<open>A run: the state after a list of events, and the effects in order.\<close>

fun final :: "ctrl \<Rightarrow> 'o event list \<Rightarrow> ctrl" where
  "final s [] = s"
| "final s (e # es) = final (fst (step s e)) es"

fun effects :: "ctrl \<Rightarrow> 'o event list \<Rightarrow> 'o effect list" where
  "effects s [] = []"
| "effects s (e # es) = snd (step s e) @ effects (fst (step s e)) es"

text \<open>A client that constructs the controller and then drives it.  The constructor's
  throw leaves the client without an object, and no later event reaches one.\<close>

definition lifecycle ::
  "string \<Rightarrow> nat option \<Rightarrow> nat \<Rightarrow> 'o event list \<Rightarrow> 'o effect list \<times> (error + ctrl)" where
  "lifecycle ty elements ref es =
     (case constructor ty elements ref of
        (fx, Inl err) \<Rightarrow> (fx, Inl err)
      | (fx, Inr s) \<Rightarrow> (fx @ effects s es, Inr (final s es)))"

subsection \<open>Observations of a run\<close>

text \<open>What a list of effects contains: the \<^verbatim>\<open>create\<close> calls, the mounted elements, the
  elements on which a given method was forwarded, the elements of all forwarded
  calls; all in order of occurrence.\<close>

fun creates :: "'o effect list \<Rightarrow> (string \<times> 'o) list" where
  "creates [] = []"
| "creates (Create ty options # fx) = (ty, options) # creates fx"
| "creates (x # fx) = creates fx"

fun mounts :: "'o effect list \<Rightarrow> handle list" where
  "mounts [] = []"
| "mounts (Mount h anchor # fx) = h # mounts fx"
| "mounts (x # fx) = mounts fx"

fun calls :: "fwd \<Rightarrow> 'o effect list \<Rightarrow> handle list" where
  "calls fn [] = []"
| "calls fn (Call h g # fx) = (if g = fn then h # calls fn fx else calls fn fx)"
| "calls fn (x # fx) = calls fn fx"

fun targets :: "'o effect list \<Rightarrow> handle list" where
  "targets [] = []"
| "targets (Call h g # fx) = h # targets fx"
| "targets (x # fx) = targets fx"

text \<open>Every forwarded call in the list comes after a mount of its element, given the
  elements \<open>ms\<close> mounted before the list starts.\<close>

fun mounted_first :: "handle list \<Rightarrow> 'o effect list \<Rightarrow> bool" where
  "mounted_first ms [] = True"
| "mounted_first ms (Mount h anchor # fx) = mounted_first (h # ms) fx"
| "mounted_first ms (Call h g # fx) = (h \<in> set ms \<and> mounted_first ms fx)"
| "mounted_first ms (x # fx) = mounted_first ms fx"

text \<open>The functions waiting in the subject's observers.\<close>

fun waiting :: "subscriber list \<Rightarrow> fwd list" where
  "waiting [] = []"
| "waiting (KeepAlive # os) = waiting os"
| "waiting (Queued fn # os) = fn # waiting os"

definition queued :: "ctrl \<Rightarrow> fwd list" where
  "queued s = waiting (observers s)"

text \<open>The options of the \<^verbatim>\<open>init\<close> calls in a list of events, and the public method
  that forwards a given function (lines 111, 114, 117 and 151).\<close>

fun inits :: "'o event list \<Rightarrow> 'o list" where
  "inits [] = []"
| "inits (Init options # es) = options # inits es"
| "inits (e # es) = inits es"

fun call_event :: "fwd \<Rightarrow> 'o event" where
  "call_event DoFocus = CallFocus"
| "call_event DoBlur = CallBlur"
| "call_event DoClear = CallClear"
| "call_event DoDestroy = NgOnDestroy"

text \<open>What reaches the controller during a run.  An emission of the observable of
  \<^verbatim>\<open>create\<close> is observed while \<^verbatim>\<open>switchMap\<close> is subscribed to it; an event of an
  element is received when a callback is registered on that element.\<close>

fun observed :: "ctrl \<Rightarrow> 'o event \<Rightarrow> handle list" where
  "observed s (CreateNext h) = (if inner_active s then [h] else [])"
| "observed s e = []"

fun emitted :: "ctrl \<Rightarrow> 'o event list \<Rightarrow> handle list" where
  "emitted s [] = []"
| "emitted s (e # es) = observed s e @ emitted (fst (step s e)) es"

fun received :: "ctrl \<Rightarrow> 'o event \<Rightarrow> evname list" where
  "received s (Fire h ev) = (if h \<in> set (hooks s) then [ev] else [])"
| "received s e = []"

fun notifications :: "ctrl \<Rightarrow> 'o event list \<Rightarrow> evname list" where
  "notifications s [] = []"
| "notifications s (e # es) = received s e @ notifications (fst (step s e)) es"

text \<open>How often a property of the state turns from false to true, and from true to
  false, during a run.\<close>

fun rises :: "(ctrl \<Rightarrow> bool) \<Rightarrow> ctrl \<Rightarrow> 'o event list \<Rightarrow> nat" where
  "rises P s [] = 0"
| "rises P s (e # es) =
     (if \<not> P s \<and> P (fst (step s e)) then 1 else 0) + rises P (fst (step s e)) es"

fun falls :: "(ctrl \<Rightarrow> bool) \<Rightarrow> ctrl \<Rightarrow> 'o event list \<Rightarrow> nat" where
  "falls P s [] = 0"
| "falls P s (e # es) =
     (if P s \<and> \<not> P (fst (step s e)) then 1 else 0) + falls P (fst (step s e)) es"

text \<open>Creation is pending: no element is stored or buffered, and the pipeline has
  neither failed nor completed.\<close>

definition pending :: "ctrl \<Rightarrow> bool" where
  "pending s = (p_instance s = None \<and> replay s = None \<and> \<not> hasError s \<and> \<not> isComplete s)"

text \<open>Events that are neither a disposal nor an emission.\<close>

fun calm :: "'o event \<Rightarrow> bool" where
  "calm NgOnDestroy = False"
| "calm (CreateNext h) = False"
| "calm e = True"

text \<open>Relations between the operator flags that hold after construction and are kept by
  every step: while \<^verbatim>\<open>switchMap\<close> is subscribed to the observable of \<^verbatim>\<open>create\<close> the
  pipeline has left \<^verbatim>\<open>init$\<close> and has neither failed nor completed; after a completion
  or a failure the pipeline is not on \<^verbatim>\<open>init$\<close>; with an element stored nothing waits.\<close>

definition consistent :: "ctrl \<Rightarrow> bool" where
  "consistent s =
     ((inner_active s \<longrightarrow> \<not> init_observed s \<and> \<not> hasError s \<and> \<not> isComplete s)
      \<and> (isComplete s \<longrightarrow> \<not> init_observed s \<and> \<not> hasError s)
      \<and> (hasError s \<longrightarrow> \<not> init_observed s)
      \<and> (p_instance s \<noteq> None \<longrightarrow> queued s = []))"

section \<open>Properties\<close>

subsection \<open>Auxiliary facts\<close>

lemmas method_defs = init_def forward_def get_instance_def subscribe_take1_def unsubscribe_def
  ngOnDestroy_def tap_elm_def subject_next_def create_next_def create_complete_def
  create_error_def disable_def

lemmas run_defs = created_def method_defs on_event_def

lemma final_append: "final s (es @ fs) = final (final s es) fs"
  by (induction es arbitrary: s) simp_all

lemma effects_append: "effects s (es @ fs) = effects s es @ effects (final s es) fs"
  by (induction es arbitrary: s) simp_all

lemma fire_fields:
  "p_value (fst (fire h ev ks s)) = p_value s"
  "p_instance (fst (fire h ev ks s)) = p_instance s"
  "hooks (fst (fire h ev ks s)) = hooks s"
  "observers (fst (fire h ev ks s)) = observers s"
  "replay (fst (fire h ev ks s)) = replay s"
  "hasError (fst (fire h ev ks s)) = hasError s"
  "isComplete (fst (fire h ev ks s)) = isComplete s"
  "init_observed (fst (fire h ev ks s)) = init_observed s"
  "inner_active (fst (fire h ev ks s)) = inner_active s"
  "sub_closed (fst (fire h ev ks s)) = sub_closed s"
  "elementType (fst (fire h ev ks s)) = elementType s"
  "nativeElement (fst (fire h ev ks s)) = nativeElement s"
  by (induction ks arbitrary: s; simp add: on_event_def split_beta split: evname.splits)+

lemma fire_ready:
  "p_ready (fst (fire h ev ks s)) = (if ev = EvReady \<and> h \<in> set ks then Some True else p_ready s)"
  by (induction ks arbitrary: s) (auto simp: on_event_def split_beta split: evname.splits)

lemma fire_focused:
  "p_focused (fst (fire h ev ks s)) =
     (if h \<in> set ks then (case ev of EvReady \<Rightarrow> p_focused s | EvFocus \<Rightarrow> Some True | EvBlur \<Rightarrow> Some False)
      else p_focused s)"
  by (induction ks arbitrary: s) (auto simp: on_event_def split_beta split: evname.splits)

lemma step_p_value: "p_value (fst (step s e)) = p_value s"
  by (cases e) (simp_all add: method_defs fire_fields split_beta split: option.splits)

lemma final_p_value: "p_value (final s es) = p_value s"
  by (induction es arbitrary: s) (simp_all add: step_p_value)

lemma step_p_ready:
  "p_ready (fst (step s e)) = (if EvReady \<in> set (received s e) then Some True else p_ready s)"
  by (cases e) (simp_all add: method_defs fire_ready fire_fields split_beta split: option.splits)

lemma step_p_focused:
  "p_focused (fst (step s e)) =
     (case received s e of [EvFocus] \<Rightarrow> Some True | [EvBlur] \<Rightarrow> Some False | _ \<Rightarrow> p_focused s)"
  by (cases e) (simp_all add: method_defs fire_focused fire_fields split_beta split: option.splits evname.splits)

subsection \<open>Construction without a container\<close>

text \<open>
  Claim C6.  Constructing the controller with an absent container (\<^verbatim>\<open>null\<close> or
  \<^verbatim>\<open>undefined\<close>) throws the usage error at once: the constructor has made no call on
  a collaborator, in particular none of \<^verbatim>\<open>create\<close>, and it yields no object, so
  whatever the client planned to do next, nothing more happens.
\<close>

theorem constructor_requires_container:
  "(constructor ty None ref :: 'o effect list \<times> (error + ctrl)) = ([], Inl UsageError)
   \<and> (lifecycle ty None ref es :: 'o effect list \<times> (error + ctrl)) = ([], Inl UsageError)"
  by (simp add: constructor_def lifecycle_def)

subsection \<open>The getters of the change event\<close>

text \<open>
  Claim C7.  In every state the getters \<^verbatim>\<open>empty\<close>, \<^verbatim>\<open>complete\<close> and \<^verbatim>\<open>error\<close> return
  without a TypeError and are functions of the stored change event alone: \<^verbatim>\<open>empty\<close> is
  true iff nothing is stored or the stored event's \<^verbatim>\<open>empty\<close> is true; \<^verbatim>\<open>complete\<close> is
  true iff an event is stored and its \<^verbatim>\<open>complete\<close> is true; \<^verbatim>\<open>error\<close> is the stored
  event's error object if there is one and \<^verbatim>\<open>null\<close> otherwise.  No method of the base
  class and no event of the pipeline stores a change event, so after any run from
  construction they are \<^verbatim>\<open>true\<close>, \<^verbatim>\<open>false\<close> and \<^verbatim>\<open>null\<close>.
\<close>

theorem getters_project_value:
  "get_empty s = Inr (JBool (case p_value s of None \<Rightarrow> True | Some v \<Rightarrow> ce_empty v))
   \<and> get_complete s = Inr (JBool (case p_value s of None \<Rightarrow> False | Some v \<Rightarrow> ce_complete v))
   \<and> get_error s = Inr (case p_value s of None \<Rightarrow> JNull
        | Some v \<Rightarrow> (case ce_error v of None \<Rightarrow> JNull | Some err \<Rightarrow> JError err))
   \<and> get_empty (final (created ty ref) es) = Inr (JBool True)
   \<and> get_complete (final (created ty ref) es) = Inr (JBool False)
   \<and> get_error (final (created ty ref) es) = Inr JNull"
proof -
  have v: "p_value (final (created ty ref) es) = None"
    by (simp add: final_p_value created_def)
  have a: "get_empty t = Inr (JBool (case p_value t of None \<Rightarrow> True | Some v \<Rightarrow> ce_empty v))" for t
    by (simp add: get_empty_def js_or_def js_not_def this_value_def prop_empty_def split: option.splits)
  have b: "get_complete t = Inr (JBool (case p_value t of None \<Rightarrow> False | Some v \<Rightarrow> ce_complete v))" for t
    by (simp add: get_complete_def js_and_def js_not_def this_value_def prop_complete_def split: option.splits)
  have c: "get_error t = Inr (case p_value t of None \<Rightarrow> JNull
        | Some v \<Rightarrow> (case ce_error v of None \<Rightarrow> JNull | Some err \<Rightarrow> JError err))" for t
    by (simp add: get_error_def js_or_def js_and_def js_not_def this_value_def prop_error_def split: option.splits)
  show ?thesis
    using a [of s] b [of s] c [of s] a [of "final (created ty ref) es"] b [of "final (created ty ref) es"]
      c [of "final (created ty ref) es"] v
    by simp
qed

subsection \<open>The ready flag\<close>

lemma get_ready_iff: "get_ready s = (p_ready s = Some True)"
  by (cases "p_ready s") (auto simp: get_ready_def js_not_def flag_def)

lemma step_get_ready: "get_ready (fst (step s e)) = (get_ready s \<or> EvReady \<in> set (received s e))"
  by (simp add: get_ready_iff step_p_ready)

lemma final_get_ready: "get_ready (final s es) = (get_ready s \<or> EvReady \<in> set (notifications s es))"
  by (induction es arbitrary: s) (auto simp: step_get_ready)

lemma falls_ready: "falls get_ready s es = 0"
  by (induction es arbitrary: s) (auto simp: step_get_ready)

lemma rises_ready: "rises get_ready s es = (if \<not> get_ready s \<and> get_ready (final s es) then 1 else 0)"
proof (induction es arbitrary: s)
  case Nil
  then show ?case by simp
next
  case (Cons e es)
  show ?case
    using Cons.IH [of "fst (step s e)"] final_get_ready [of "fst (step s e)" es]
    by (auto simp: step_get_ready)
qed

text \<open>
  Claim C8.  \<^verbatim>\<open>ready\<close> is monotonic.  A step makes it true exactly when the controller
  receives a \<^verbatim>\<open>ready\<close> event of a hooked element; once true it stays true over every
  run, so it never turns from true to false; it is false after construction, and over
  a run from construction it turns from false to true once if a \<^verbatim>\<open>ready\<close> event is
  received and not at all otherwise.
\<close>

theorem ready_monotonic:
  "get_ready (fst (step s e)) = (get_ready s \<or> EvReady \<in> set (received s e))
   \<and> (get_ready s \<longrightarrow> get_ready (final s es))
   \<and> falls get_ready s es = 0
   \<and> \<not> get_ready (created ty ref)
   \<and> get_ready (final (created ty ref) es) = (EvReady \<in> set (notifications (created ty ref) es))
   \<and> rises get_ready (created ty ref) es
       = (if EvReady \<in> set (notifications (created ty ref) es) then 1 else 0)"
proof -
  have c: "\<not> get_ready (created ty ref)"
    by (simp add: get_ready_iff created_def)
  show ?thesis
    using c by (simp add: step_get_ready final_get_ready falls_ready rises_ready)
qed

theorem ready_monotonic_witness:
  "get_ready (final (created ''card'' 0) [Init ''A'', CreateNext 1, Fire 1 EvReady])
   \<and> get_ready (final (final (created ''card'' 0) [Init ''A'', CreateNext 1, Fire 1 EvReady])
        [Fire 1 EvBlur, CallClear, NgOnDestroy, CreateNext 2, CreateError, Init ''B''])"
proof -
  let ?s = "final (created ''card'' 0) [Init ''A'', CreateNext 1, Fire 1 EvReady :: string event]"
  have h: "get_ready ?s"
    by (simp add: run_defs get_ready_iff)
  from ready_monotonic [of ?s _ "[Fire 1 EvBlur, CallClear, NgOnDestroy, CreateNext 2, CreateError, Init ''B'']"] h
  show ?thesis by blast
qed

subsection \<open>The focused flag\<close>

lemma get_focused_iff: "get_focused s = (p_focused s = Some True)"
  by (cases "p_focused s") (auto simp: get_focused_def js_not_def flag_def)

lemma final_get_focused:
  "get_focused (final s es) =
     (case filter (\<lambda>n. n \<noteq> EvReady) (notifications s es) of
        [] \<Rightarrow> get_focused s
      | n # ns \<Rightarrow> last (n # ns) = EvFocus)"
proof (induction es arbitrary: s)
  case Nil
  then show ?case by simp
next
  case (Cons e es)
  have r: "received s e = [] \<or> (\<exists>ev. received s e = [ev])"
    by (cases e) auto
  show ?case
    using r Cons.IH [of "fst (step s e)"]
    by (auto simp: get_focused_iff step_p_focused split: list.splits evname.splits)
qed

text \<open>
  Claim C9.  After any run, \<^verbatim>\<open>focused\<close> is true iff the last \<^verbatim>\<open>focus\<close> or \<^verbatim>\<open>blur\<close> event
  the controller received during the run was a \<^verbatim>\<open>focus\<close>; when it received none the
  getter is what it was before the run, which is false after construction.  In
  particular an element with registered callbacks that fires \<^verbatim>\<open>focus\<close>, \<^verbatim>\<open>blur\<close>,
  \<^verbatim>\<open>focus\<close> leaves \<^verbatim>\<open>focused\<close> true.
\<close>

theorem focused_follows_last_notification:
  "get_focused (final s (es :: 'o event list)) =
     (case filter (\<lambda>n. n \<noteq> EvReady) (notifications s es) of
        [] \<Rightarrow> get_focused s
      | n # ns \<Rightarrow> last (n # ns) = EvFocus)
   \<and> \<not> get_focused (created ty ref)
   \<and> (h \<in> set (hooks s) \<longrightarrow>
        notifications s [Fire h EvFocus, Fire h EvBlur, Fire h EvFocus :: 'o event]
          = [EvFocus, EvBlur, EvFocus]
        \<and> get_focused (final s [Fire h EvFocus, Fire h EvBlur, Fire h EvFocus :: 'o event]))"
proof -
  let ?fbf = "[Fire h EvFocus, Fire h EvBlur, Fire h EvFocus :: 'o event]"
  have c: "\<not> get_focused (created ty ref)"
    by (simp add: get_focused_iff created_def)
  have n: "notifications s ?fbf = [EvFocus, EvBlur, EvFocus]" if "h \<in> set (hooks s)"
    using that by (simp add: fire_fields)
  have f: "get_focused (final s ?fbf)" if "h \<in> set (hooks s)"
  proof -
    have "get_focused (final s ?fbf) =
        (case filter (\<lambda>n. n \<noteq> EvReady) (notifications s ?fbf) of
           [] \<Rightarrow> get_focused s | n # ns \<Rightarrow> last (n # ns) = EvFocus)"
      by (rule final_get_focused)
    also have "\<dots> = True"
      by (simp only: n [OF that]) simp
    finally show ?thesis by simp
  qed
  show ?thesis
    using c n f final_get_focused [of s es] by blast
qed

theorem focused_follows_last_notification_witness:
  "3 \<in> set (hooks (final (created ''card'' 0) [Init ''A'', CreateNext 3]))
   \<and> get_focused (final (final (created ''card'' 0) [Init ''A'', CreateNext 3])
        [Fire 3 EvFocus, Fire 3 EvBlur, Fire 3 EvFocus :: string event])"
proof -
  let ?s = "final (created ''card'' 0) [Init ''A'', CreateNext 3 :: string event]"
  have h: "3 \<in> set (hooks ?s)"
    by (simp add: run_defs)
  from focused_follows_last_notification [of ?s "[] :: string event list" "''card''" 0 3] h
  show ?thesis by blast
qed

subsection \<open>The disabled getter\<close>

text \<open>
  Claim C10.  In the base class \<^verbatim>\<open>disabled\<close> is false after every run from every
  state, and \<^verbatim>\<open>disable(flag)\<close> changes nothing and calls nothing.
\<close>

theorem disabled_always_false:
  "\<not> get_disabled (final s es)
   \<and> (step s (CallDisable b) :: ctrl \<times> 'o effect list) = (s, [])
   \<and> \<not> get_disabled (final (created ty ref) es)"
  by (simp add: get_disabled_def disable_def)

subsection \<open>Facts about the effects of a run\<close>

lemma creates_append: "creates (a @ b) = creates a @ creates b"
  by (induction a rule: creates.induct) simp_all

lemma mounts_append: "mounts (a @ b) = mounts a @ mounts b"
  by (induction a rule: mounts.induct) simp_all

lemma calls_append: "calls fn (a @ b) = calls fn a @ calls fn b"
  by (induction fn a rule: calls.induct) simp_all

lemma targets_append: "targets (a @ b) = targets a @ targets b"
  by (induction a rule: targets.induct) simp_all

lemma inits_append: "inits (a @ b) = inits a @ inits b"
  by (induction a rule: inits.induct) simp_all

lemma waiting_append: "waiting (a @ b) = waiting a @ waiting b"
  by (induction a rule: waiting.induct) simp_all

lemma waiting_keep_alive: "waiting (filter (\<lambda>ob. ob = KeepAlive) os) = []"
  by (induction os rule: waiting.induct) simp_all

lemma waiting_remove1: "waiting (remove1 KeepAlive os) = waiting os"
  by (induction os rule: waiting.induct) simp_all

lemma deliver_obs:
  "creates (deliver h os) = []"
  "mounts (deliver h os) = []"
  "targets (deliver h os) = map (\<lambda>fn. h) (waiting os)"
  "calls fn (deliver h os) = map (\<lambda>g. h) (filter (\<lambda>g. g = fn) (waiting os))"
  by (induction h os rule: deliver.induct) simp_all

lemma report_obs:
  "creates (map (\<lambda>ob. ReportError) os) = []"
  "mounts (map (\<lambda>ob. ReportError) os) = []"
  "targets (map (\<lambda>ob. ReportError) os) = []"
  "calls fn (map (\<lambda>ob. ReportError) os) = []"
  by (induction os) simp_all

lemma fire_obs:
  "creates (snd (fire h ev ks s)) = []"
  "mounts (snd (fire h ev ks s)) = []"
  "targets (snd (fire h ev ks s)) = []"
  "calls fn (snd (fire h ev ks s)) = []"
  by (induction ks arbitrary: s;
      simp add: on_event_def split_beta creates_append mounts_append targets_append calls_append
        split: evname.splits)+

lemmas obs_simps = creates_append mounts_append calls_append targets_append inits_append
  waiting_append waiting_keep_alive waiting_remove1 deliver_obs report_obs fire_obs fire_fields

lemma step_creates:
  "creates (snd (step s e)) =
     (case e of Init options \<Rightarrow> if init_observed s then [(elementType s, options)] else [] | _ \<Rightarrow> [])"
  by (cases e) (simp_all add: method_defs obs_simps split_beta split: option.splits)

lemma step_mounts: "mounts (snd (step s e)) = observed s e"
  by (cases e) (simp_all add: method_defs obs_simps split_beta split: option.splits)

lemma step_elementType: "elementType (fst (step s e)) = elementType s"
  by (cases e) (simp_all add: method_defs obs_simps split_beta split: option.splits)

lemma step_nativeElement: "nativeElement (fst (step s e)) = nativeElement s"
  by (cases e) (simp_all add: method_defs obs_simps split_beta split: option.splits)

lemma step_hasError:
  "\<not> hasError s \<Longrightarrow> e \<noteq> CreateError \<Longrightarrow> \<not> hasError (fst (step s e))"
  by (cases e) (simp_all add: method_defs obs_simps split_beta split: option.splits)

lemma step_init_observed:
  "\<not> hasError s \<Longrightarrow>
     init_observed (fst (step s e)) = (init_observed s \<and> (case e of Init x \<Rightarrow> False | _ \<Rightarrow> True))"
  by (cases e) (simp_all add: method_defs obs_simps split_beta split: option.splits)

lemma inits_Cons: "inits (e # es) = (case e of Init x \<Rightarrow> x # inits es | _ \<Rightarrow> inits es)"
  by (cases e) simp_all

lemma creates_effects:
  "\<not> hasError s \<Longrightarrow> CreateError \<notin> set es \<Longrightarrow>
     creates (effects s es) =
       (if init_observed s then (case inits es of [] \<Rightarrow> [] | x # xs \<Rightarrow> [(elementType s, x)]) else [])"
proof (induction es arbitrary: s)
  case Nil
  then show ?case by simp
next
  case (Cons e es)
  define s1 where "s1 = fst (step s e)"
  have e: "e \<noteq> CreateError" and es: "CreateError \<notin> set es"
    using Cons.prems(2) by auto
  have h: "\<not> hasError s1"
    unfolding s1_def using Cons.prems(1) e by (rule step_hasError)
  have ih: "creates (effects s1 es) =
      (if init_observed s1 then (case inits es of [] \<Rightarrow> [] | x # xs \<Rightarrow> [(elementType s1, x)]) else [])"
    using h es by (rule Cons.IH)
  have io: "init_observed s1 = (init_observed s \<and> (case e of Init x \<Rightarrow> False | _ \<Rightarrow> True))"
    unfolding s1_def using Cons.prems(1) by (rule step_init_observed)
  have et: "elementType s1 = elementType s"
    unfolding s1_def by (rule step_elementType)
  have eff: "creates (effects s (e # es)) = creates (snd (step s e)) @ creates (effects s1 es)"
    by (simp add: s1_def creates_append)
  show ?case
    unfolding eff ih io et step_creates inits_Cons
    by (simp split: event.splits list.splits)
qed

lemma mounts_effects: "mounts (effects s es) = emitted s es"
  by (induction es arbitrary: s) (simp_all add: mounts_append step_mounts)

lemma step_targets:
  "set (targets (snd (step s e))) \<subseteq> set_option (p_instance s) \<union> set_option (replay s) \<union> set (observed s e)"
  by (cases e) (auto simp: method_defs obs_simps split_beta split: option.splits if_splits)

lemma step_holds:
  "set_option (p_instance (fst (step s e))) \<union> set_option (replay (fst (step s e)))
     \<subseteq> set_option (p_instance s) \<union> set_option (replay s) \<union> set (observed s e)"
  by (cases e) (auto simp: method_defs obs_simps split_beta split: option.splits if_splits)

lemma targets_effects:
  "set (targets (effects s es))
     \<subseteq> set_option (p_instance s) \<union> set_option (replay s) \<union> set (emitted s es)"
proof (induction es arbitrary: s)
  case Nil
  then show ?case by simp
next
  case (Cons e es)
  show ?case
    using Cons.IH [of "fst (step s e)"] step_targets [of s e] step_holds [of s e]
    by (auto simp: targets_append)
qed

lemma mounted_first_append:
  "mounted_first ms (a @ b) = (mounted_first ms a \<and> mounted_first (rev (mounts a) @ ms) b)"
  by (induction ms a rule: mounted_first.induct) simp_all

lemma mounted_first_deliver: "h \<in> set ms \<Longrightarrow> mounted_first ms (deliver h os)"
  by (induction h os rule: deliver.induct) simp_all

lemma mounted_first_report: "mounted_first ms (map (\<lambda>ob. ReportError) os)"
  by (induction os) simp_all

lemma mounted_first_fire: "mounted_first ms (snd (fire h ev ks s))"
  by (induction ks arbitrary: s)
     (auto simp: on_event_def split_beta mounted_first_append fire_obs split: evname.splits)

lemma step_mounted_first:
  "set_option (p_instance s) \<union> set_option (replay s) \<subseteq> set ms \<Longrightarrow> mounted_first ms (snd (step s e))"
  by (cases e)
     (auto simp: method_defs split_beta mounted_first_append mounted_first_deliver
        mounted_first_report mounted_first_fire split: option.splits)

lemma mounted_first_effects:
  "set_option (p_instance s) \<union> set_option (replay s) \<subseteq> set ms \<Longrightarrow> mounted_first ms (effects s es)"
proof (induction es arbitrary: s ms)
  case Nil
  then show ?case by simp
next
  case (Cons e es)
  define s1 where "s1 = fst (step s e)"
  have a: "mounted_first ms (snd (step s e))"
    using Cons.prems by (rule step_mounted_first)
  have "set_option (p_instance s1) \<union> set_option (replay s1)
      \<subseteq> set_option (p_instance s) \<union> set_option (replay s) \<union> set (observed s e)"
    unfolding s1_def by (rule step_holds)
  then have "set_option (p_instance s1) \<union> set_option (replay s1)
      \<subseteq> set (rev (mounts (snd (step s e))) @ ms)"
    using Cons.prems by (auto simp: step_mounts)
  then have b: "mounted_first (rev (mounts (snd (step s e))) @ ms) (effects s1 es)"
    by (rule Cons.IH)
  show ?case
    using a b by (simp add: mounted_first_append s1_def)
qed

lemma count_waiting: "count_list (waiting os) fn = length (filter (\<lambda>g. g = fn) (waiting os))"
  by (induction os rule: waiting.induct) simp_all

lemma step_count_le:
  "fn \<noteq> DoDestroy \<Longrightarrow>
     length (calls fn (snd (step s e))) + count_list (queued (fst (step s e))) fn
       \<le> count_list (queued s) fn + count_list [e] (call_event fn)"
  by (cases e; cases fn)
     (simp_all add: method_defs queued_def obs_simps count_waiting split_beta split: option.splits)

lemma count_le:
  "fn \<noteq> DoDestroy \<Longrightarrow>
     length (calls fn (effects s es)) + count_list (queued (final s es)) fn
       \<le> count_list (queued s) fn + count_list es (call_event fn)"
proof (induction es arbitrary: s)
  case Nil
  then show ?case by simp
next
  case (Cons e es)
  define s1 where "s1 = fst (step s e)"
  have a: "length (calls fn (snd (step s e))) + count_list (queued s1) fn
      \<le> count_list (queued s) fn + count_list [e] (call_event fn)"
    unfolding s1_def using Cons.prems by (rule step_count_le)
  have b: "length (calls fn (effects s1 es)) + count_list (queued (final s1 es)) fn
      \<le> count_list (queued s1) fn + count_list es (call_event fn)"
    using Cons.prems by (rule Cons.IH)
  have c: "calls fn (effects s (e # es)) = calls fn (snd (step s e)) @ calls fn (effects s1 es)"
    by (simp add: s1_def calls_append)
  have d: "final s (e # es) = final s1 es"
    by (simp add: s1_def)
  have e: "count_list (e # es) (call_event fn) = count_list [e] (call_event fn) + count_list es (call_event fn)"
    by simp
  show ?case
    unfolding c d e using a b by simp
qed

lemma step_isComplete:
  "\<not> isComplete s \<Longrightarrow> e \<noteq> CreateComplete \<Longrightarrow> \<not> isComplete (fst (step s e))"
  by (cases e) (simp_all add: method_defs obs_simps split_beta split: option.splits)

lemma step_count_eq:
  "fn \<noteq> DoDestroy \<Longrightarrow> \<not> hasError s \<Longrightarrow> \<not> isComplete s \<Longrightarrow> e \<noteq> CreateError \<Longrightarrow> e \<noteq> CreateComplete \<Longrightarrow>
     length (calls fn (snd (step s e))) + count_list (queued (fst (step s e))) fn
       = count_list (queued s) fn + count_list [e] (call_event fn)"
  by (cases e; cases fn)
     (simp_all add: method_defs queued_def obs_simps count_waiting split_beta split: option.splits)

lemma count_eq:
  "fn \<noteq> DoDestroy \<Longrightarrow> \<not> hasError s \<Longrightarrow> \<not> isComplete s \<Longrightarrow>
   CreateError \<notin> set es \<Longrightarrow> CreateComplete \<notin> set es \<Longrightarrow>
     length (calls fn (effects s es)) + count_list (queued (final s es)) fn
       = count_list (queued s) fn + count_list es (call_event fn)"
proof (induction es arbitrary: s)
  case Nil
  then show ?case by simp
next
  case (Cons e es)
  define s1 where "s1 = fst (step s e)"
  have ne: "e \<noteq> CreateError" "e \<noteq> CreateComplete"
    and nes: "CreateError \<notin> set es" "CreateComplete \<notin> set es"
    using Cons.prems(4,5) by auto
  have a: "length (calls fn (snd (step s e))) + count_list (queued s1) fn
      = count_list (queued s) fn + count_list [e] (call_event fn)"
    unfolding s1_def using Cons.prems(1,2,3) ne by (rule step_count_eq)
  have h1: "\<not> hasError s1"
    unfolding s1_def using Cons.prems(2) ne(1) by (rule step_hasError)
  have h2: "\<not> isComplete s1"
    unfolding s1_def using Cons.prems(3) ne(2) by (rule step_isComplete)
  have b: "length (calls fn (effects s1 es)) + count_list (queued (final s1 es)) fn
      = count_list (queued s1) fn + count_list es (call_event fn)"
    using Cons.prems(1) h1 h2 nes by (rule Cons.IH)
  have c: "calls fn (effects s (e # es)) = calls fn (snd (step s e)) @ calls fn (effects s1 es)"
    by (simp add: s1_def calls_append)
  have d: "final s (e # es) = final s1 es"
    by (simp add: s1_def)
  have e: "count_list (e # es) (call_event fn) = count_list [e] (call_event fn) + count_list es (call_event fn)"
    by simp
  show ?case
    unfolding c d e using a b by simp
qed

lemma step_resolved:
  "(p_instance s \<noteq> None \<longrightarrow> queued s = []) \<Longrightarrow>
     (p_instance (fst (step s e)) \<noteq> None \<longrightarrow> queued (fst (step s e)) = [])"
  by (cases e) (auto simp: method_defs queued_def obs_simps split_beta split: option.splits)

lemma final_resolved:
  "(p_instance s \<noteq> None \<longrightarrow> queued s = []) \<Longrightarrow>
     (p_instance (final s es) \<noteq> None \<longrightarrow> queued (final s es) = [])"
proof (induction es arbitrary: s)
  case Nil
  then show ?case by simp
next
  case (Cons e es)
  have "p_instance (fst (step s e)) \<noteq> None \<longrightarrow> queued (fst (step s e)) = []"
    using Cons.prems by (rule step_resolved)
  then have "p_instance (final (fst (step s e)) es) \<noteq> None \<longrightarrow> queued (final (fst (step s e)) es) = []"
    by (rule Cons.IH)
  then show ?case by simp
qed

subsection \<open>Creation and the first configuration\<close>

lemma created_fields:
  "p_instance (created ty ref) = None" "replay (created ty ref) = None"
  "\<not> hasError (created ty ref)" "\<not> isComplete (created ty ref)"
  "init_observed (created ty ref)" "\<not> inner_active (created ty ref)"
  "elementType (created ty ref) = ty" "nativeElement (created ty ref) = ref"
  "queued (created ty ref) = []" "\<not> sub_closed (created ty ref)"
  "observers (created ty ref) = [KeepAlive]" "hooks (created ty ref) = []"
  by (simp_all add: created_def queued_def)

lemma final_init_observed:
  "\<not> hasError s \<Longrightarrow> CreateError \<notin> set es \<Longrightarrow>
     \<not> hasError (final s es) \<and> init_observed (final s es) = (init_observed s \<and> inits es = [])"
proof (induction es arbitrary: s)
  case Nil
  then show ?case by simp
next
  case (Cons e es)
  define s1 where "s1 = fst (step s e)"
  have e: "e \<noteq> CreateError" and es: "CreateError \<notin> set es"
    using Cons.prems(2) by auto
  have h: "\<not> hasError s1"
    unfolding s1_def using Cons.prems(1) e by (rule step_hasError)
  have ih: "\<not> hasError (final s1 es) \<and> init_observed (final s1 es) = (init_observed s1 \<and> inits es = [])"
    using h es by (rule Cons.IH)
  have io: "init_observed s1 = (init_observed s \<and> (case e of Init x \<Rightarrow> False | _ \<Rightarrow> True))"
    unfolding s1_def using Cons.prems(1) by (rule step_init_observed)
  have d: "final s (e # es) = final s1 es"
    by (simp add: s1_def)
  show ?case
    unfolding d inits_Cons using ih io by (simp split: event.splits)
qed

lemma inits_map_Init: "inits (map Init os) = os"
  by (induction os) simp_all

text \<open>
  Claim C1, as amended.  Over every run from construction in which the observable
  returned by \<^verbatim>\<open>create\<close> signals no error, \<^verbatim>\<open>create\<close> is called at most once, whatever
  calls of \<^verbatim>\<open>init\<close>, \<^verbatim>\<open>focus\<close>, \<^verbatim>\<open>blur\<close>, \<^verbatim>\<open>clear\<close> and \<^verbatim>\<open>ngOnDestroy\<close> the run contains.
  Over every run the mounted elements are exactly the elements the pipeline observed
  from that observable, each mounted once when it is observed, and every forwarded
  call goes to one of them: with a single emission all operations reach the same
  element, mounted once.  In every state a call of \<^verbatim>\<open>focus\<close>, \<^verbatim>\<open>blur\<close>, \<^verbatim>\<open>clear\<close> or
  \<^verbatim>\<open>ngOnDestroy\<close> neither calls \<^verbatim>\<open>create\<close> nor mounts.
\<close>

theorem create_at_most_once:
  "(CreateError \<notin> set (es :: 'o event list) \<longrightarrow> length (creates (effects (created ty ref) es)) \<le> 1)
   \<and> mounts (effects (created ty ref) es) = emitted (created ty ref) es
   \<and> set (targets (effects (created ty ref) es)) \<subseteq> set (emitted (created ty ref) es)
   \<and> ((e :: 'o event) \<in> {CallFocus, CallBlur, CallClear, NgOnDestroy} \<longrightarrow>
        creates (snd (step s e)) = [] \<and> mounts (snd (step s e)) = [])"
proof -
  have a: "length (creates (effects (created ty ref) es)) \<le> 1" if "CreateError \<notin> set es"
    using creates_effects [of "created ty ref" es] that
    by (simp add: created_fields split: list.splits)
  have b: "set (targets (effects (created ty ref) es)) \<subseteq> set (emitted (created ty ref) es)"
    using targets_effects [of "created ty ref" es] by (simp add: created_fields)
  have c: "creates (snd (step s e)) = [] \<and> mounts (snd (step s e)) = []"
    if "e \<in> {CallFocus, CallBlur, CallClear, NgOnDestroy}"
    using that by (auto simp: step_creates step_mounts)
  show ?thesis
    using a b c mounts_effects [of "created ty ref" es] by blast
qed

theorem create_at_most_once_witness:
  "CreateError \<notin> set [CallFocus, Init ''A'', CallClear, NgOnDestroy, CreateNext 1, CallBlur, Init ''B'', CallFocus :: string event]
   \<and> length (creates (effects (created ''card'' 0)
        [CallFocus, Init ''A'', CallClear, NgOnDestroy, CreateNext 1, CallBlur, Init ''B'', CallFocus])) \<le> 1
   \<and> set (targets (effects (created ''card'' 0)
        [CallFocus, Init ''A'', CallClear, NgOnDestroy, CreateNext 1, CallBlur, Init ''B'', CallFocus :: string event])) \<subseteq> {1}
   \<and> (NgOnDestroy :: string event) \<in> {CallFocus, CallBlur, CallClear, NgOnDestroy}
   \<and> creates (snd (step (created ''card'' 0) (NgOnDestroy :: string event))) = []
   \<and> mounts (snd (step (created ''card'' 0) (NgOnDestroy :: string event))) = []"
proof -
  let ?es = "[CallFocus, Init ''A'', CallClear, NgOnDestroy, CreateNext 1, CallBlur, Init ''B'', CallFocus :: string event]"
  have h: "CreateError \<notin> set ?es"
    by simp
  have m: "(NgOnDestroy :: string event) \<in> {CallFocus, CallBlur, CallClear, NgOnDestroy}"
    by simp
  have e: "emitted (created ''card'' 0) ?es = [1]"
    by (simp add: run_defs)
  note t = create_at_most_once [of ?es "''card''" 0 NgOnDestroy "created ''card'' 0"]
  from t h have a: "length (creates (effects (created ''card'' 0) ?es)) \<le> 1"
    by blast
  from t have "set (targets (effects (created ''card'' 0) ?es)) \<subseteq> set (emitted (created ''card'' 0) ?es)"
    by blast
  then have b: "set (targets (effects (created ''card'' 0) ?es)) \<subseteq> {1}"
    by (simp only: e) simp
  from t m have c: "creates (snd (step (created ''card'' 0) (NgOnDestroy :: string event))) = []
      \<and> mounts (snd (step (created ''card'' 0) (NgOnDestroy :: string event))) = []"
    by blast
  from h a b m c show ?thesis by blast
qed

text \<open>
  The claim as stated fails when the observable of \<^verbatim>\<open>create\<close> fails: \<^verbatim>\<open>shareReplay\<close>
  then resubscribes to its source for the next subscriber, so after a \<^verbatim>\<open>focus()\<close> a
  second \<^verbatim>\<open>init\<close> calls \<^verbatim>\<open>create\<close> again.  Without the \<^verbatim>\<open>focus()\<close> it does not.
\<close>

theorem create_twice_counterexample:
  "\<not> length (creates (effects (created ''card'' 0) [Init ''A'', CreateError, CallFocus, Init ''B''])) \<le> 1
   \<and> creates (effects (created ''card'' 0) [Init ''A'', CreateError, CallFocus, Init ''B''])
       = [(''card'', ''A''), (''card'', ''B'')]
   \<and> creates (effects (created ''card'' 0) [Init ''A'', CreateError, Init ''B''])
       = [(''card'', ''A'')]"
  by (simp add: run_defs)

text \<open>
  Claim C2, as amended.  Over every run from construction in which the observable
  returned by \<^verbatim>\<open>create\<close> signals no error, the calls of \<^verbatim>\<open>create\<close> are: none when the
  run has no \<^verbatim>\<open>init\<close>, and otherwise one, with the element type and the options of the
  first \<^verbatim>\<open>init\<close>; after such a run with an \<^verbatim>\<open>init\<close> in it, a further \<^verbatim>\<open>init\<close> changes
  nothing and calls nothing.  In particular this holds of every sequence of \<^verbatim>\<open>init\<close>
  calls alone, and \<^verbatim>\<open>init(a)\<close>, \<^verbatim>\<open>init(b)\<close>, resolution creates with \<^verbatim>\<open>a\<close> and mounts.
\<close>

theorem first_init_wins:
  "(CreateError \<notin> set (es :: 'o event list) \<longrightarrow>
      creates (effects (created ty ref) es) = (case inits es of [] \<Rightarrow> [] | x # xs \<Rightarrow> [(ty, x)]))
   \<and> (CreateError \<notin> set es \<and> inits es \<noteq> [] \<longrightarrow>
      step (final (created ty ref) es) (Init (options :: 'o)) = (final (created ty ref) es, []))
   \<and> creates (effects (created ty ref) (map Init (os :: 'o list)))
       = (case os of [] \<Rightarrow> [] | x # xs \<Rightarrow> [(ty, x)])
   \<and> effects (created ty ref) [Init (a :: 'o), Init b, CreateNext h]
       = [Create ty a, Hook h EvReady, Hook h EvFocus, Hook h EvBlur, Mount h ref]"
proof -
  have a: "creates (effects (created ty ref) fs) = (case inits fs of [] \<Rightarrow> [] | x # xs \<Rightarrow> [(ty, x)])"
    if "CreateError \<notin> set fs" for fs :: "'o event list"
    using creates_effects [of "created ty ref" fs] that by (simp add: created_fields cong: list.case_cong)
  have b: "step (final (created ty ref) es) (Init options) = (final (created ty ref) es, [])"
    if "CreateError \<notin> set es" "inits es \<noteq> []"
    using final_init_observed [of "created ty ref" es] that
    by (simp add: created_fields init_def)
  have "CreateError \<notin> set (map Init os)"
    by auto
  then have c: "creates (effects (created ty ref) (map Init os)) = (case os of [] \<Rightarrow> [] | x # xs \<Rightarrow> [(ty, x)])"
    using a [of "map Init os"] by (simp add: inits_map_Init)
  have d: "effects (created ty ref) [Init a, Init b, CreateNext h]
       = [Create ty a, Hook h EvReady, Hook h EvFocus, Hook h EvBlur, Mount h ref]"
    by (simp add: run_defs)
  show ?thesis
    using a [of es] b c d by blast
qed

theorem first_init_wins_witness:
  "CreateError \<notin> set [CallFocus, Init ''styleA'', NgOnDestroy, Init ''styleB'', CreateNext 1, Init ''styleC'' :: string event]
   \<and> creates (effects (created ''card'' 0)
        [CallFocus, Init ''styleA'', NgOnDestroy, Init ''styleB'', CreateNext 1, Init ''styleC''])
       = [(''card'', ''styleA'')]
   \<and> step (final (created ''card'' 0)
        [CallFocus, Init ''styleA'', NgOnDestroy, Init ''styleB'', CreateNext 1, Init ''styleC''])
        (Init ''styleD'')
       = (final (created ''card'' 0)
        [CallFocus, Init ''styleA'', NgOnDestroy, Init ''styleB'', CreateNext 1, Init ''styleC''], [])"
proof -
  let ?es = "[CallFocus, Init ''styleA'', NgOnDestroy, Init ''styleB'', CreateNext 1, Init ''styleC'' :: string event]"
  have h: "CreateError \<notin> set ?es" "inits ?es \<noteq> []"
    by simp_all
  have i: "inits ?es = [''styleA'', ''styleB'', ''styleC'']"
    by simp
  note t = first_init_wins [of ?es "''card''" 0 "''styleD''" "[]" "''x''" "''y''" 0]
  from t h(1) have "creates (effects (created ''card'' 0) ?es)
      = (case inits ?es of [] \<Rightarrow> [] | x # xs \<Rightarrow> [(''card'', x)])"
    by blast
  then have a: "creates (effects (created ''card'' 0) ?es) = [(''card'', ''styleA'')]"
    by (simp only: i list.case)
  from t h have b: "step (final (created ''card'' 0) ?es) (Init ''styleD'') = (final (created ''card'' 0) ?es, [])"
    by blast
  from h(1) a b show ?thesis by blast
qed

text \<open>
  The claim as stated fails after a failure of the observable of \<^verbatim>\<open>create\<close> followed
  by a forwarded call: the pipeline listens to \<^verbatim>\<open>init$\<close> again, and the later \<^verbatim>\<open>init\<close>
  calls \<^verbatim>\<open>create\<close> with its own options.
\<close>

theorem later_init_counterexample:
  "inits [Init ''styleA'', CreateError, CallBlur, Init ''styleB'', CreateNext 1] = [''styleA'', ''styleB'']
   \<and> snd (step (final (created ''card'' 0) [Init ''styleA'', CreateError, CallBlur]) (Init ''styleB''))
       = [Create ''card'' ''styleB'']
   \<and> effects (created ''card'' 0) [Init ''styleA'', CreateError, CallBlur, Init ''styleB'', CreateNext 1]
       = [Create ''card'' ''styleA'', ReportError, Create ''card'' ''styleB'',
          Hook 1 EvReady, Hook 1 EvFocus, Hook 1 EvBlur, Mount 1 0, Call 1 DoBlur]"
  by (simp add: run_defs)

subsection \<open>Forwarded calls\<close>

lemma step_resolution:
  "inner_active s \<Longrightarrow>
     snd (step s (CreateNext h)) =
       (case p_instance s of Some p \<Rightarrow> [Call p DoDestroy] | None \<Rightarrow> [])
       @ [Hook h EvReady, Hook h EvFocus, Hook h EvBlur, Mount h (nativeElement s)]
       @ deliver h (observers s)"
  by (simp add: method_defs split_beta)

lemma step_resolution_state:
  "inner_active s \<Longrightarrow>
     queued (fst (step s (CreateNext h))) = [] \<and> p_instance (fst (step s (CreateNext h))) = Some h"
  by (simp add: method_defs split_beta queued_def waiting_keep_alive)

lemma calls_deliver: "calls fn (deliver h os) = replicate (count_list (waiting os) fn) h"
  by (induction h os rule: deliver.induct) simp_all

lemma step_consistent: "consistent s \<Longrightarrow> consistent (fst (step s e))"
  by (cases e)
     (auto simp: consistent_def method_defs queued_def obs_simps split_beta split: option.splits)

lemma step_stuck:
  "p_instance s = None \<and> \<not> inner_active s \<and> \<not> init_observed s \<and> \<not> hasError s \<Longrightarrow>
     p_instance (fst (step s e)) = None \<and> \<not> inner_active (fst (step s e))
     \<and> \<not> init_observed (fst (step s e)) \<and> \<not> hasError (fst (step s e))"
  by (cases e) (simp_all add: method_defs obs_simps split_beta split: option.splits)

lemma final_stuck:
  "p_instance s = None \<and> \<not> inner_active s \<and> \<not> init_observed s \<and> \<not> hasError s \<Longrightarrow>
     p_instance (final s es) = None"
proof (induction es arbitrary: s)
  case Nil
  then show ?case by simp
next
  case (Cons e es)
  have "p_instance (fst (step s e)) = None \<and> \<not> inner_active (fst (step s e))
     \<and> \<not> init_observed (fst (step s e)) \<and> \<not> hasError (fst (step s e))"
    using Cons.prems by (rule step_stuck)
  then have "p_instance (final (fst (step s e)) es) = None"
    by (rule Cons.IH)
  then show ?case by simp
qed

lemma step_count_live:
  "fn \<noteq> DoDestroy \<Longrightarrow> consistent s \<Longrightarrow> \<not> hasError s \<Longrightarrow> e \<noteq> CreateError \<Longrightarrow>
   \<not> (isComplete (fst (step s e)) \<and> p_instance (fst (step s e)) = None) \<Longrightarrow>
     length (calls fn (snd (step s e))) + count_list (queued (fst (step s e))) fn
       = count_list (queued s) fn + count_list [e] (call_event fn)"
  by (cases e; cases fn)
     (auto simp: consistent_def method_defs queued_def obs_simps count_waiting split_beta
        split: option.splits if_splits)

lemma count_resolved:
  "fn \<noteq> DoDestroy \<Longrightarrow> consistent s \<Longrightarrow> \<not> hasError s \<Longrightarrow> CreateError \<notin> set es \<Longrightarrow>
   p_instance (final s es) \<noteq> None \<Longrightarrow>
     length (calls fn (effects s es)) + count_list (queued (final s es)) fn
       = count_list (queued s) fn + count_list es (call_event fn)"
proof (induction es arbitrary: s)
  case Nil
  then show ?case by simp
next
  case (Cons e es)
  define s1 where "s1 = fst (step s e)"
  have ne: "e \<noteq> CreateError" and nes: "CreateError \<notin> set es"
    using Cons.prems(4) by auto
  have c1: "consistent s1"
    unfolding s1_def using Cons.prems(2) by (rule step_consistent)
  have h1: "\<not> hasError s1"
    unfolding s1_def using Cons.prems(3) ne by (rule step_hasError)
  have r: "p_instance (final s1 es) \<noteq> None"
    using Cons.prems(5) by (simp add: s1_def)
  have live: "\<not> (isComplete s1 \<and> p_instance s1 = None)"
  proof
    assume d: "isComplete s1 \<and> p_instance s1 = None"
    with c1 h1 have "p_instance s1 = None \<and> \<not> inner_active s1 \<and> \<not> init_observed s1 \<and> \<not> hasError s1"
      by (auto simp: consistent_def)
    then have "p_instance (final s1 es) = None"
      by (rule final_stuck)
    with r show False by simp
  qed
  have a: "length (calls fn (snd (step s e))) + count_list (queued s1) fn
      = count_list (queued s) fn + count_list [e] (call_event fn)"
    unfolding s1_def using Cons.prems(1,2,3) ne live [unfolded s1_def] by (rule step_count_live)
  have b: "length (calls fn (effects s1 es)) + count_list (queued (final s1 es)) fn
      = count_list (queued s1) fn + count_list es (call_event fn)"
    using Cons.prems(1) c1 h1 nes r by (rule Cons.IH)
  have c: "calls fn (effects s (e # es)) = calls fn (snd (step s e)) @ calls fn (effects s1 es)"
    by (simp add: s1_def calls_append)
  have d: "final s (e # es) = final s1 es"
    by (simp add: s1_def)
  have e: "count_list (e # es) (call_event fn) = count_list [e] (call_event fn) + count_list es (call_event fn)"
    by simp
  show ?case
    unfolding c d e using a b by simp
qed

lemma consistent_created: "consistent (created ty ref)"
  by (simp add: consistent_def created_fields)

lemma step_destroy_bound:
  "length (calls DoDestroy (snd (step s e))) + count_list (queued (fst (step s e))) DoDestroy
     + (if p_instance (fst (step s e)) = None then 0 else 1)
   \<le> count_list (queued s) DoDestroy + count_list [e] NgOnDestroy + length (observed s e)
     + (if p_instance s = None then 0 else 1)"
  by (cases e)
     (auto simp: method_defs queued_def obs_simps count_waiting split_beta split: option.splits)

lemma destroy_bound:
  "length (calls DoDestroy (effects s es)) + count_list (queued (final s es)) DoDestroy
     + (if p_instance (final s es) = None then 0 else 1)
   \<le> count_list (queued s) DoDestroy + count_list es NgOnDestroy + length (emitted s es)
     + (if p_instance s = None then 0 else 1)"
proof (induction es arbitrary: s)
  case Nil
  then show ?case by simp
next
  case (Cons e es)
  define s1 where "s1 = fst (step s e)"
  have a: "length (calls DoDestroy (snd (step s e))) + count_list (queued s1) DoDestroy
     + (if p_instance s1 = None then 0 else 1)
   \<le> count_list (queued s) DoDestroy + count_list [e] NgOnDestroy + length (observed s e)
     + (if p_instance s = None then 0 else 1)"
    unfolding s1_def by (rule step_destroy_bound)
  have b: "length (calls DoDestroy (effects s1 es)) + count_list (queued (final s1 es)) DoDestroy
     + (if p_instance (final s1 es) = None then 0 else 1)
   \<le> count_list (queued s1) DoDestroy + count_list es NgOnDestroy + length (emitted s1 es)
     + (if p_instance s1 = None then 0 else 1)"
    by (rule Cons.IH)
  have c: "calls DoDestroy (effects s (e # es))
      = calls DoDestroy (snd (step s e)) @ calls DoDestroy (effects s1 es)"
    "final s (e # es) = final s1 es"
    "emitted s (e # es) = observed s e @ emitted s1 es"
    "count_list (e # es) NgOnDestroy = count_list [e] NgOnDestroy + count_list es NgOnDestroy"
    by (simp_all add: s1_def calls_append)
  show ?case
    unfolding c using a b by simp
qed

text \<open>
  Claim C3, as amended.  Let the method be \<^verbatim>\<open>focus\<close>, \<^verbatim>\<open>blur\<close> or \<^verbatim>\<open>clear\<close>.  With an
  element stored, the call is forwarded to it within the call and the state is
  unchanged.  With none stored: while creation is pending the call makes no call
  outside and adds one waiting subscription; after a failure of the observable of
  \<^verbatim>\<open>create\<close> it resubscribes the pipeline and waits alone; after a completion without
  an element it does nothing.  When the pipeline observes an element, the step hooks
  and mounts it and then runs each waiting function once on it, in the order of
  subscription, and no subscription waits afterwards.  Over every run from
  construction the forwarded calls of the method and the subscriptions still waiting
  for it together never exceed the calls of the method made; they equal them when
  that observable has neither failed nor completed; once an element is stored nothing
  waits, and if that observable has not failed each call made has then been forwarded
  exactly once.  Every forwarded call comes after the mount of its element.
\<close>

theorem forward_now_or_once_on_resolution:
  "fn \<noteq> DoDestroy \<longrightarrow>
     (p_instance s = Some h \<longrightarrow> step s (call_event fn :: 'o event) = (s, [Call h fn]))
   \<and> (pending s \<longrightarrow>
        step s (call_event fn :: 'o event) = (s\<lparr> observers := observers s @ [Queued fn] \<rparr>, []))
   \<and> (p_instance s = None \<and> hasError s \<longrightarrow>
        step s (call_event fn :: 'o event)
          = (s\<lparr> hasError := False, replay := None, observers := [Queued fn], init_observed := True \<rparr>, []))
   \<and> (p_instance s = None \<and> replay s = None \<and> \<not> hasError s \<and> isComplete s \<longrightarrow>
        step s (call_event fn :: 'o event) = (s, []))
   \<and> (inner_active s \<longrightarrow>
        (snd (step s (CreateNext k)) :: 'o effect list) =
          (case p_instance s of Some p \<Rightarrow> [Call p DoDestroy] | None \<Rightarrow> [])
          @ [Hook k EvReady, Hook k EvFocus, Hook k EvBlur, Mount k (nativeElement s)]
          @ deliver k (observers s)
        \<and> calls fn (deliver k (observers s) :: 'o effect list) = replicate (count_list (queued s) fn) k
        \<and> queued (fst (step s (CreateNext k :: 'o event))) = [])
   \<and> length (calls fn (effects (created ty ref) es)) + count_list (queued (final (created ty ref) es)) fn
        \<le> count_list es (call_event fn :: 'o event)
   \<and> (CreateError \<notin> set es \<and> CreateComplete \<notin> set es \<longrightarrow>
        length (calls fn (effects (created ty ref) es)) + count_list (queued (final (created ty ref) es)) fn
          = count_list es (call_event fn))
   \<and> (p_instance (final (created ty ref) es) \<noteq> None \<longrightarrow> queued (final (created ty ref) es) = [])
   \<and> (CreateError \<notin> set es \<and> p_instance (final (created ty ref) es) \<noteq> None \<longrightarrow>
        length (calls fn (effects (created ty ref) es)) = count_list es (call_event fn))
   \<and> mounted_first [] (effects (created ty ref) es)"
proof
  assume fn: "fn \<noteq> DoDestroy"
  have a: "step s (call_event fn :: 'o event) = (s, [Call h fn])" if "p_instance s = Some h"
    using that fn by (cases fn) (simp_all add: method_defs)
  have b: "step s (call_event fn :: 'o event) = (s\<lparr> observers := observers s @ [Queued fn] \<rparr>, [])"
    if "pending s"
    using that fn by (cases fn) (simp_all add: method_defs pending_def)
  have b2: "step s (call_event fn :: 'o event)
      = (s\<lparr> hasError := False, replay := None, observers := [Queued fn], init_observed := True \<rparr>, [])"
    if "p_instance s = None \<and> hasError s"
    using that fn by (cases fn) (simp_all add: method_defs)
  have b3: "step s (call_event fn :: 'o event) = (s, [])"
    if "p_instance s = None \<and> replay s = None \<and> \<not> hasError s \<and> isComplete s"
    using that fn by (cases fn) (simp_all add: method_defs)
  have c: "calls fn (deliver k (observers s) :: 'o effect list) = replicate (count_list (queued s) fn) k"
    by (simp add: calls_deliver queued_def)
  have d: "length (calls fn (effects (created ty ref) es)) + count_list (queued (final (created ty ref) es)) fn
        \<le> count_list es (call_event fn)"
    using count_le [OF fn, of "created ty ref" es] by (simp add: created_fields)
  have e: "length (calls fn (effects (created ty ref) es)) + count_list (queued (final (created ty ref) es)) fn
          = count_list es (call_event fn)"
    if "CreateError \<notin> set es \<and> CreateComplete \<notin> set es"
    using count_eq [OF fn, of "created ty ref" es] that by (simp add: created_fields)
  have f: "p_instance (final (created ty ref) es) \<noteq> None \<longrightarrow> queued (final (created ty ref) es) = []"
    by (rule final_resolved) (simp add: created_fields)
  have g: "mounted_first [] (effects (created ty ref) es)"
    by (rule mounted_first_effects) (simp add: created_fields)
  have i: "length (calls fn (effects (created ty ref) es)) = count_list es (call_event fn)"
    if "CreateError \<notin> set es \<and> p_instance (final (created ty ref) es) \<noteq> None"
    using count_resolved [OF fn consistent_created, of ty ref es] that f
    by (simp add: created_fields)
  show "(p_instance s = Some h \<longrightarrow> step s (call_event fn :: 'o event) = (s, [Call h fn]))
   \<and> (pending s \<longrightarrow>
        step s (call_event fn :: 'o event) = (s\<lparr> observers := observers s @ [Queued fn] \<rparr>, []))
   \<and> (p_instance s = None \<and> hasError s \<longrightarrow>
        step s (call_event fn :: 'o event)
          = (s\<lparr> hasError := False, replay := None, observers := [Queued fn], init_observed := True \<rparr>, []))
   \<and> (p_instance s = None \<and> replay s = None \<and> \<not> hasError s \<and> isComplete s \<longrightarrow>
        step s (call_event fn :: 'o event) = (s, []))
   \<and> (inner_active s \<longrightarrow>
        (snd (step s (CreateNext k)) :: 'o effect list) =
          (case p_instance s of Some p \<Rightarrow> [Call p DoDestroy] | None \<Rightarrow> [])
          @ [Hook k EvReady, Hook k EvFocus, Hook k EvBlur, Mount k (nativeElement s)]
          @ deliver k (observers s)
        \<and> calls fn (deliver k (observers s) :: 'o effect list) = replicate (count_list (queued s) fn) k
        \<and> queued (fst (step s (CreateNext k :: 'o event))) = [])
   \<and> length (calls fn (effects (created ty ref) es)) + count_list (queued (final (created ty ref) es)) fn
        \<le> count_list es (call_event fn :: 'o event)
   \<and> (CreateError \<notin> set es \<and> CreateComplete \<notin> set es \<longrightarrow>
        length (calls fn (effects (created ty ref) es)) + count_list (queued (final (created ty ref) es)) fn
          = count_list es (call_event fn))
   \<and> (p_instance (final (created ty ref) es) \<noteq> None \<longrightarrow> queued (final (created ty ref) es) = [])
   \<and> (CreateError \<notin> set es \<and> p_instance (final (created ty ref) es) \<noteq> None \<longrightarrow>
        length (calls fn (effects (created ty ref) es)) = count_list es (call_event fn))
   \<and> mounted_first [] (effects (created ty ref) es)"
    using a b b2 b3 c d e f g i step_resolution [of s k] step_resolution_state [of s k] by blast
qed

theorem forward_now_or_once_on_resolution_witness:
  "DoClear \<noteq> DoDestroy
   \<and> pending (created ''card'' 0)
   \<and> step (created ''card'' 0) (CallClear :: string event)
       = ((created ''card'' 0)\<lparr> observers := observers (created ''card'' 0) @ [Queued DoClear] \<rparr>, [])
   \<and> p_instance (final (created ''card'' 0) [Init ''A'', CreateNext 1]) = Some 1
   \<and> inner_active (final (created ''card'' 0) [Init ''A'', CreateNext 1])
   \<and> step (final (created ''card'' 0) [Init ''A'', CreateNext 1]) (CallClear :: string event)
       = (final (created ''card'' 0) [Init ''A'', CreateNext 1], [Call 1 DoClear])
   \<and> queued (fst (step (final (created ''card'' 0) [Init ''A'', CreateNext 1]) (CreateNext 2 :: string event))) = []
   \<and> hasError (final (created ''card'' 0) [Init ''A'', CreateError])
   \<and> fst (step (final (created ''card'' 0) [Init ''A'', CreateError]) (CallClear :: string event))
       = (final (created ''card'' 0) [Init ''A'', CreateError])
           \<lparr> hasError := False, replay := None, observers := [Queued DoClear], init_observed := True \<rparr>
   \<and> isComplete (final (created ''card'' 0) [Init ''A'', CreateComplete])
   \<and> step (final (created ''card'' 0) [Init ''A'', CreateComplete]) (CallClear :: string event)
       = (final (created ''card'' 0) [Init ''A'', CreateComplete], [])
   \<and> CreateError \<notin> set [CallClear, Init ''A'', CallFocus, CreateNext 1, CallClear :: string event]
   \<and> p_instance (final (created ''card'' 0) [CallClear, Init ''A'', CallFocus, CreateNext 1, CallClear :: string event]) \<noteq> None
   \<and> length (calls DoClear (effects (created ''card'' 0) [CallClear, Init ''A'', CallFocus, CreateNext 1, CallClear :: string event])) = 2
   \<and> effects (created ''card'' 0) [CallClear, Init ''A'', CreateNext 1 :: string event]
       = [Create ''card'' ''A'', Hook 1 EvReady, Hook 1 EvFocus, Hook 1 EvBlur, Mount 1 0, Call 1 DoClear]"
proof -
  let ?es = "[CallClear, Init ''A'', CallFocus, CreateNext 1, CallClear :: string event]"
  let ?c = "created ''card'' 0"
  let ?r = "final (created ''card'' 0) [Init ''A'', CreateNext 1 :: string event]"
  have h: "DoClear \<noteq> DoDestroy" "CreateError \<notin> set ?es"
    by simp_all
  have i: "p_instance (final ?c ?es) \<noteq> None"
    by (simp add: run_defs)
  have n: "count_list ?es (call_event DoClear) = 2"
    by simp
  have p: "pending ?c"
    by (simp add: pending_def created_def)
  have r: "p_instance ?r = Some 1" "inner_active ?r"
    by (simp_all add: run_defs)
  have ce: "(call_event DoClear :: string event) = CallClear"
    by simp
  let ?x = "final (created ''card'' 0) [Init ''A'', CreateError :: string event]"
  let ?y = "final (created ''card'' 0) [Init ''A'', CreateComplete :: string event]"
  have x: "p_instance ?x = None \<and> hasError ?x"
    by (simp add: run_defs)
  have y: "p_instance ?y = None \<and> replay ?y = None \<and> \<not> hasError ?y \<and> isComplete ?y"
    by (simp add: run_defs)
  note v = forward_now_or_once_on_resolution [of DoClear ?x 0 2 "''card''" 0 ?es]
  note w = forward_now_or_once_on_resolution [of DoClear ?y 0 2 "''card''" 0 ?es]
  from v h(1) x have "step ?x (call_event DoClear :: string event)
      = (?x\<lparr> hasError := False, replay := None, observers := [Queued DoClear], init_observed := True \<rparr>, [])"
    by blast
  then have "step ?x (CallClear :: string event)
      = (?x\<lparr> hasError := False, replay := None, observers := [Queued DoClear], init_observed := True \<rparr>, [])"
    by (simp only: ce)
  then have x2: "fst (step ?x (CallClear :: string event))
      = ?x\<lparr> hasError := False, replay := None, observers := [Queued DoClear], init_observed := True \<rparr>"
    by (simp only: fst_conv)
  from w h(1) y have "step ?y (call_event DoClear :: string event) = (?y, [])"
    by blast
  then have y2: "step ?y (CallClear :: string event) = (?y, [])"
    by (simp only: ce)
  note t = forward_now_or_once_on_resolution [of DoClear ?c 0 2 "''card''" 0 ?es]
  note u = forward_now_or_once_on_resolution [of DoClear ?r 1 2 "''card''" 0 ?es]
  from t h(1) p have "step ?c (call_event DoClear :: string event)
      = (?c\<lparr> observers := observers ?c @ [Queued DoClear] \<rparr>, [])"
    by blast
  then have q: "step ?c (CallClear :: string event) = (?c\<lparr> observers := observers ?c @ [Queued DoClear] \<rparr>, [])"
    by (simp only: ce)
  from u h(1) r(1) have "step ?r (call_event DoClear :: string event) = (?r, [Call 1 DoClear])"
    by blast
  then have s: "step ?r (CallClear :: string event) = (?r, [Call 1 DoClear])"
    by (simp only: ce)
  from u h(1) r(2) have d: "queued (fst (step ?r (CreateNext 2 :: string event))) = []"
    by blast
  from t h i have "length (calls DoClear (effects ?c ?es)) = count_list ?es (call_event DoClear)"
    by blast
  then have a: "length (calls DoClear (effects ?c ?es)) = 2"
    by (simp only: n)
  have b: "effects ?c [CallClear, Init ''A'', CreateNext 1 :: string event]
       = [Create ''card'' ''A'', Hook 1 EvReady, Hook 1 EvFocus, Hook 1 EvBlur, Mount 1 0, Call 1 DoClear]"
    by (simp add: run_defs)
  from h p q r s d i a b x x2 y y2 show ?thesis by blast
qed

text \<open>
  The claim as stated fails when the observable of \<^verbatim>\<open>create\<close> fails or completes
  without an element.  The failure closes the waiting subscriptions without running
  them: the \<^verbatim>\<open>focus()\<close> made before it is never forwarded, although a later emission
  stores and mounts an element.  After a completion without an element a call is
  neither forwarded nor kept waiting.
\<close>

theorem forward_lost_counterexample:
  "p_instance (final (created ''card'' 0)
       [CallFocus, Init ''A'', CreateError, CallBlur, Init ''B'', CreateNext 1]) = Some 1
   \<and> count_list [CallFocus, Init ''A'', CreateError, CallBlur, Init ''B'', CreateNext 1] CallFocus = 1
   \<and> calls DoFocus (effects (created ''card'' 0)
       [CallFocus, Init ''A'', CreateError, CallBlur, Init ''B'', CreateNext 1]) = []
   \<and> effects (created ''card'' 0)
       [CallFocus, Init ''A'', CreateError, CallBlur, Init ''B'', CreateNext 1]
       = [Create ''card'' ''A'', ReportError, ReportError, Create ''card'' ''B'',
          Hook 1 EvReady, Hook 1 EvFocus, Hook 1 EvBlur, Mount 1 0, Call 1 DoBlur]
   \<and> p_instance (final (created ''card'' 0) [Init ''A'', CreateComplete]) = None
   \<and> step (final (created ''card'' 0) [Init ''A'', CreateComplete]) CallFocus
       = (final (created ''card'' 0) [Init ''A'', CreateComplete], [])"
  by (simp add: run_defs)

subsection \<open>Disposal\<close>

lemma monotone_flag:
  fixes es :: "'o event list"
  assumes mono: "\<And>s (e :: 'o event). P s \<Longrightarrow> P (fst (step s e))"
  shows "(P s \<longrightarrow> P (final s es)) \<and> falls P s es = 0
     \<and> rises P s es = (if \<not> P s \<and> P (final s es) then 1 else 0)"
proof (induction es arbitrary: s)
  case Nil
  then show ?case by simp
next
  case (Cons e es)
  show ?case
    using Cons.IH [of "fst (step s e)"] mono [of s e] by auto
qed

lemma step_sub_closed: "sub_closed s \<Longrightarrow> sub_closed (fst (step s e))"
  by (cases e) (simp_all add: method_defs split_beta fire_fields split: option.splits)

lemma dispose_closes: "sub_closed (fst (step s NgOnDestroy))"
  by (simp add: method_defs split_beta split: option.splits)

lemma step_keep_alive:
  "(sub_closed s \<longrightarrow> KeepAlive \<notin> set (observers s)) \<and> count_list (observers s) KeepAlive \<le> 1 \<Longrightarrow>
   (sub_closed (fst (step s e)) \<longrightarrow> KeepAlive \<notin> set (observers (fst (step s e))))
     \<and> count_list (observers (fst (step s e))) KeepAlive \<le> 1"
proof -
  have r: "KeepAlive \<notin> set (remove1 KeepAlive os)" "count_list (remove1 KeepAlive os) KeepAlive \<le> 1"
    if "count_list os KeepAlive \<le> 1" for os
    using that by (induction os) (auto simp: count_list_0_iff split: if_splits)
  have f: "count_list (filter (\<lambda>ob. ob = KeepAlive) os) KeepAlive = count_list os KeepAlive" for os
    by (induction os) auto
  assume "(sub_closed s \<longrightarrow> KeepAlive \<notin> set (observers s)) \<and> count_list (observers s) KeepAlive \<le> 1"
  then show ?thesis
    using r [of "observers s"] r [of "observers s @ [Queued DoDestroy]"]
    by (cases e) (auto simp: method_defs split_beta fire_fields f split: option.splits)
qed

lemma final_keep_alive:
  "(sub_closed s \<longrightarrow> KeepAlive \<notin> set (observers s)) \<and> count_list (observers s) KeepAlive \<le> 1 \<Longrightarrow>
   (sub_closed (final s es) \<longrightarrow> KeepAlive \<notin> set (observers (final s es)))
     \<and> count_list (observers (final s es)) KeepAlive \<le> 1"
proof (induction es arbitrary: s)
  case Nil
  then show ?case by simp
next
  case (Cons e es)
  have "(sub_closed (fst (step s e)) \<longrightarrow> KeepAlive \<notin> set (observers (fst (step s e))))
     \<and> count_list (observers (fst (step s e))) KeepAlive \<le> 1"
    using Cons.prems by (rule step_keep_alive)
  then have "(sub_closed (final (fst (step s e)) es) \<longrightarrow> KeepAlive \<notin> set (observers (final (fst (step s e)) es)))
     \<and> count_list (observers (final (fst (step s e)) es)) KeepAlive \<le> 1"
    by (rule Cons.IH)
  then show ?case by simp
qed

lemma calls_targets: "targets fx = [] \<Longrightarrow> calls fn fx = []"
  by (induction fx rule: targets.induct) simp_all

lemma step_calm: "calm e \<Longrightarrow> calls DoDestroy (snd (step s e)) = []"
  by (cases e) (simp_all add: method_defs obs_simps split_beta split: option.splits)

lemma effects_calm: "\<forall>e\<in>set es. calm e \<Longrightarrow> calls DoDestroy (effects s es) = []"
  by (induction es arbitrary: s) (simp_all add: calls_append step_calm)

lemma emitted_append: "emitted s (es @ fs) = emitted s es @ emitted (final s es) fs"
  by (induction es arbitrary: s) simp_all

lemma step_idle:
  "\<not> hasError s \<and> \<not> inner_active s \<and> \<not> init_observed s \<Longrightarrow>
     \<not> hasError (fst (step s e)) \<and> \<not> inner_active (fst (step s e)) \<and> \<not> init_observed (fst (step s e))"
  by (cases e) (simp_all add: method_defs obs_simps split_beta split: option.splits)

lemma final_idle:
  "\<not> hasError s \<and> \<not> inner_active s \<and> \<not> init_observed s \<Longrightarrow>
     \<not> hasError (final s es) \<and> \<not> inner_active (final s es) \<and> \<not> init_observed (final s es)"
proof (induction es arbitrary: s)
  case Nil
  then show ?case by simp
next
  case (Cons e es)
  have "\<not> hasError (fst (step s e)) \<and> \<not> inner_active (fst (step s e)) \<and> \<not> init_observed (fst (step s e))"
    using Cons.prems by (rule step_idle)
  then have "\<not> hasError (final (fst (step s e)) es) \<and> \<not> inner_active (final (fst (step s e)) es)
      \<and> \<not> init_observed (final (fst (step s e)) es)"
    by (rule Cons.IH)
  then show ?case by simp
qed

lemma step_waiting:
  "pending s \<Longrightarrow> (inner_active s \<longrightarrow> \<not> init_observed s) \<Longrightarrow> e \<noteq> CreateError \<Longrightarrow>
   observed s e = [] \<Longrightarrow> \<not> (e = CreateComplete \<and> inner_active s) \<Longrightarrow>
     pending (fst (step s e)) \<and> (inner_active (fst (step s e)) \<longrightarrow> \<not> init_observed (fst (step s e)))
     \<and> targets (snd (step s e)) = []
     \<and> count_list (queued (fst (step s e))) DoDestroy
         = count_list (queued s) DoDestroy + count_list [e] NgOnDestroy
     \<and> sub_closed (fst (step s e)) = (sub_closed s \<or> e = NgOnDestroy)"
  by (cases e)
     (auto simp: pending_def method_defs queued_def obs_simps split_beta
        split: option.splits if_splits)

lemma final_waiting:
  "pending s \<Longrightarrow> (inner_active s \<longrightarrow> \<not> init_observed s) \<Longrightarrow> CreateError \<notin> set es \<Longrightarrow>
   emitted s es = [] \<Longrightarrow> inner_active (final s es) \<or> init_observed (final s es) \<Longrightarrow>
     pending (final s es) \<and> targets (effects s es) = []
     \<and> count_list (queued (final s es)) DoDestroy
         = count_list (queued s) DoDestroy + count_list es NgOnDestroy
     \<and> sub_closed (final s es) = (sub_closed s \<or> NgOnDestroy \<in> set es)"
proof (induction es arbitrary: s)
  case Nil
  then show ?case by simp
next
  case (Cons e es)
  define s1 where "s1 = fst (step s e)"
  have ne: "e \<noteq> CreateError" and nes: "CreateError \<notin> set es"
    using Cons.prems(3) by auto
  have ob: "observed s e = []" and em: "emitted s1 es = []"
    using Cons.prems(4) by (simp_all add: s1_def)
  have live: "inner_active (final s1 es) \<or> init_observed (final s1 es)"
    using Cons.prems(5) by (simp add: s1_def)
  have nc: "\<not> (e = CreateComplete \<and> inner_active s)"
  proof
    assume c: "e = CreateComplete \<and> inner_active s"
    then have "\<not> hasError s1 \<and> \<not> inner_active s1 \<and> \<not> init_observed s1"
      using Cons.prems(1,2) by (simp add: s1_def pending_def method_defs)
    then have "\<not> hasError (final s1 es) \<and> \<not> inner_active (final s1 es) \<and> \<not> init_observed (final s1 es)"
      by (rule final_idle)
    with live show False by simp
  qed
  have st: "pending s1 \<and> (inner_active s1 \<longrightarrow> \<not> init_observed s1)
     \<and> targets (snd (step s e)) = []
     \<and> count_list (queued s1) DoDestroy = count_list (queued s) DoDestroy + count_list [e] NgOnDestroy
     \<and> sub_closed s1 = (sub_closed s \<or> e = NgOnDestroy)"
    unfolding s1_def using Cons.prems(1,2) ne ob nc by (rule step_waiting)
  have ih: "pending (final s1 es) \<and> targets (effects s1 es) = []
     \<and> count_list (queued (final s1 es)) DoDestroy
         = count_list (queued s1) DoDestroy + count_list es NgOnDestroy
     \<and> sub_closed (final s1 es) = (sub_closed s1 \<or> NgOnDestroy \<in> set es)"
    using st nes em live by (intro Cons.IH) simp_all
  have d: "final s (e # es) = final s1 es"
    "targets (effects s (e # es)) = targets (snd (step s e)) @ targets (effects s1 es)"
    "count_list (e # es) NgOnDestroy = count_list [e] NgOnDestroy + count_list es NgOnDestroy"
    by (simp_all add: s1_def targets_append)
  show ?case
    unfolding d using st ih by auto
qed

lemma dispose_pending:
  "pending s \<Longrightarrow>
     (step s NgOnDestroy :: ctrl \<times> 'o effect list)
       = (unsubscribe (s\<lparr> observers := observers s @ [Queued DoDestroy] \<rparr>), [])"
  by (simp add: pending_def method_defs)

lemma final_nativeElement: "nativeElement (final s es) = nativeElement s"
  by (induction es arbitrary: s) (simp_all add: step_nativeElement)

lemma emitted_none:
  "emitted (created ty ref) es = [] \<Longrightarrow> calls DoDestroy (effects (created ty ref) es) = []"
proof -
  assume "emitted (created ty ref) es = []"
  then have "targets (effects (created ty ref) es) = []"
    using targets_effects [of "created ty ref" es] by (simp add: created_fields)
  then show ?thesis by (rule calls_targets)
qed

text \<open>
  Claim C4, as amended.  Disposal while creation is pending makes no call outside and
  returns: it adds one waiting subscription for \<^verbatim>\<open>destroy\<close> and cancels the
  constructor's subscription.  Over every run from construction that contains a
  disposal, that subscription ends closed and out of the subject, and it turns from
  open to closed exactly once and never back.  Over every run from construction in
  which the pipeline observes no element, no \<^verbatim>\<open>destroy\<close> is ever called; and over
  every run the \<^verbatim>\<open>destroy\<close> calls, the subscriptions still waiting to call it and,
  once an element is stored, one more, never exceed the disposals plus the observed
  emissions.  If the disposal is the only one up to the first observed emission and
  the observable of \<^verbatim>\<open>create\<close> has not failed before it, then creation is pending
  and the subscription open at the disposal, no \<^verbatim>\<open>destroy\<close> is called before the
  emission, the emission step hooks and mounts the element and then calls its
  \<^verbatim>\<open>destroy\<close> once, and with no further disposal or emission afterwards that call is
  the only \<^verbatim>\<open>destroy\<close> of the whole run.
\<close>

theorem dispose_before_resolution:
  fixes pre mid post rest es :: "'o event list"
  shows
  "(pending s \<longrightarrow>
      (step s NgOnDestroy :: ctrl \<times> 'o effect list)
        = (unsubscribe (s\<lparr> observers := observers s @ [Queued DoDestroy] \<rparr>), []))
   \<and> (emitted (created ty ref) es = [] \<longrightarrow> calls DoDestroy (effects (created ty ref) es) = [])
   \<and> sub_closed (final (created ty ref) (pre @ NgOnDestroy # rest))
   \<and> KeepAlive \<notin> set (observers (final (created ty ref) (pre @ NgOnDestroy # rest)))
   \<and> rises sub_closed (created ty ref) (pre @ NgOnDestroy # rest) = 1
   \<and> falls sub_closed (created ty ref) es = 0
   \<and> length (calls DoDestroy (effects (created ty ref) es))
        + count_list (queued (final (created ty ref) es)) DoDestroy
        + (if p_instance (final (created ty ref) es) = None then 0 else 1)
       \<le> count_list es NgOnDestroy + length (emitted (created ty ref) es)
   \<and> (CreateError \<notin> set (pre @ mid) \<and> NgOnDestroy \<notin> set (pre @ mid)
        \<and> emitted (created ty ref) (pre @ NgOnDestroy # mid) = []
        \<and> inner_active (final (created ty ref) (pre @ NgOnDestroy # mid))
        \<and> (\<forall>e\<in>set post. calm e) \<longrightarrow>
        pending (final (created ty ref) pre) \<and> \<not> sub_closed (final (created ty ref) pre)
        \<and> calls DoDestroy (effects (created ty ref) (pre @ NgOnDestroy # mid)) = []
        \<and> snd (step (final (created ty ref) (pre @ NgOnDestroy # mid)) (CreateNext h :: 'o event))
            = [Hook h EvReady, Hook h EvFocus, Hook h EvBlur, Mount h ref]
              @ deliver h (observers (final (created ty ref) (pre @ NgOnDestroy # mid)))
        \<and> calls DoDestroy (snd (step (final (created ty ref) (pre @ NgOnDestroy # mid)) (CreateNext h :: 'o event)))
            = [h]
        \<and> calls DoDestroy (effects (created ty ref) (pre @ NgOnDestroy # mid @ CreateNext h # post))
            = [h])"
proof -
  let ?c = "created ty ref"
  have mono: "\<And>s (e :: 'o event). sub_closed s \<Longrightarrow> sub_closed (fst (step s e))"
    by (rule step_sub_closed)
  have A: "(step s NgOnDestroy :: ctrl \<times> 'o effect list)
        = (unsubscribe (s\<lparr> observers := observers s @ [Queued DoDestroy] \<rparr>), [])" if "pending s"
    using that by (rule dispose_pending)
  have B: "calls DoDestroy (effects ?c es) = []" if "emitted ?c es = []"
    using that by (rule emitted_none)
  have "sub_closed (fst (step (final ?c pre) (NgOnDestroy :: 'o event)))"
    by (rule dispose_closes)
  then have "sub_closed (final (fst (step (final ?c pre) (NgOnDestroy :: 'o event))) rest)"
    using monotone_flag [of sub_closed _ rest, OF mono] by blast
  then have C: "sub_closed (final ?c (pre @ NgOnDestroy # rest))"
    by (simp add: final_append)
  have "(sub_closed (final ?c (pre @ NgOnDestroy # rest))
        \<longrightarrow> KeepAlive \<notin> set (observers (final ?c (pre @ NgOnDestroy # rest))))
      \<and> count_list (observers (final ?c (pre @ NgOnDestroy # rest))) KeepAlive \<le> 1"
    by (rule final_keep_alive) (simp add: created_fields)
  with C have D: "KeepAlive \<notin> set (observers (final ?c (pre @ NgOnDestroy # rest)))"
    by blast
  have E: "rises sub_closed ?c (pre @ NgOnDestroy # rest) = 1"
    using monotone_flag [of sub_closed ?c "pre @ NgOnDestroy # rest", OF mono] C
    by (simp add: created_fields)
  have F: "falls sub_closed ?c es = 0"
    using monotone_flag [of sub_closed ?c es, OF mono] by blast
  have G: "pending (final ?c pre) \<and> \<not> sub_closed (final ?c pre)
        \<and> calls DoDestroy (effects ?c (pre @ NgOnDestroy # mid)) = []
        \<and> snd (step (final ?c (pre @ NgOnDestroy # mid)) (CreateNext h :: 'o event))
            = [Hook h EvReady, Hook h EvFocus, Hook h EvBlur, Mount h ref]
              @ deliver h (observers (final ?c (pre @ NgOnDestroy # mid)))
        \<and> calls DoDestroy (snd (step (final ?c (pre @ NgOnDestroy # mid)) (CreateNext h :: 'o event))) = [h]
        \<and> calls DoDestroy (effects ?c (pre @ NgOnDestroy # mid @ CreateNext h # post)) = [h]"
    if ne: "CreateError \<notin> set (pre @ mid)" and nd: "NgOnDestroy \<notin> set (pre @ mid)"
      and em: "emitted ?c (pre @ NgOnDestroy # mid) = []"
      and ia: "inner_active (final ?c (pre @ NgOnDestroy # mid))"
      and cp: "\<forall>e\<in>set post. calm e"
  proof -
    define s1 where "s1 = final ?c pre"
    define s2 where "s2 = final ?c (pre @ NgOnDestroy # mid)"
    define s3 where "s3 = fst (step s2 (CreateNext h :: 'o event))"
    have pc: "pending ?c" "inner_active ?c \<longrightarrow> \<not> init_observed ?c"
      by (simp_all add: pending_def created_fields)
    have ne0: "CreateError \<notin> set (pre @ NgOnDestroy # mid)" and nep: "CreateError \<notin> set pre"
      using ne by auto
    have cnt: "count_list (pre @ NgOnDestroy # mid) NgOnDestroy = 1"
      "NgOnDestroy \<notin> set pre"
      using nd by (simp_all add: count_list_0_iff)
    have f2: "pending s2" "targets (effects ?c (pre @ NgOnDestroy # mid)) = []"
      "count_list (queued s2) DoDestroy = 1"
      using final_waiting [OF pc ne0 em] ia cnt(1)
      by (simp_all add: s2_def created_fields)
    have emp: "emitted ?c pre = []"
      using em by (simp add: emitted_append)
    have s12: "s2 = final s1 (NgOnDestroy # mid)"
      unfolding s2_def s1_def by (simp only: final_append)
    have h1: "\<not> hasError s1"
      using final_init_observed [of ?c pre] nep by (simp add: s1_def created_fields)
    have live1: "inner_active s1 \<or> init_observed s1"
    proof (rule ccontr)
      assume "\<not> (inner_active s1 \<or> init_observed s1)"
      with h1 have "\<not> hasError s1 \<and> \<not> inner_active s1 \<and> \<not> init_observed s1"
        by simp
      then have "\<not> hasError (final s1 (NgOnDestroy # mid)) \<and> \<not> inner_active (final s1 (NgOnDestroy # mid))
          \<and> \<not> init_observed (final s1 (NgOnDestroy # mid))"
        by (rule final_idle)
      with ia show False
        by (simp only: s2_def [symmetric] s12)
    qed
    have f1: "pending s1" "\<not> sub_closed s1"
      using final_waiting [OF pc nep emp] live1 cnt(2)
      by (simp_all add: s1_def created_fields)
    have g1: "calls DoDestroy (effects ?c (pre @ NgOnDestroy # mid)) = []"
      using f2(2) by (rule calls_targets)
    have ne: "nativeElement s2 = ref"
      using final_nativeElement [of ?c "pre @ NgOnDestroy # mid"] by (simp add: s2_def created_fields)
    have pi: "p_instance s2 = None"
      using f2(1) by (simp add: pending_def)
    have ia2: "inner_active s2"
      using ia by (simp only: s2_def)
    have g2: "(snd (step s2 (CreateNext h)) :: 'o effect list)
        = [Hook h EvReady, Hook h EvFocus, Hook h EvBlur, Mount h ref] @ deliver h (observers s2)"
      using step_resolution [OF ia2, of h] by (simp add: pi ne)
    have g3: "calls DoDestroy (snd (step s2 (CreateNext h)) :: 'o effect list) = [h]"
      unfolding g2 using f2(3) by (simp add: calls_append calls_deliver queued_def)
    have split: "pre @ NgOnDestroy # mid @ CreateNext h # post
        = (pre @ NgOnDestroy # mid) @ CreateNext h # post"
      by simp
    have "effects ?c (pre @ NgOnDestroy # mid @ CreateNext h # post)
        = effects ?c (pre @ NgOnDestroy # mid) @ snd (step s2 (CreateNext h)) @ effects s3 post"
      unfolding split effects_append s2_def [symmetric] by (simp add: s3_def)
    then have g4: "calls DoDestroy (effects ?c (pre @ NgOnDestroy # mid @ CreateNext h # post)) = [h]"
      using g1 g3 effects_calm [OF cp, of s3] by (simp add: calls_append)
    show ?thesis
      using f1 g1 g2 g3 g4 unfolding s2_def s1_def by blast
  qed
  have H: "length (calls DoDestroy (effects ?c es)) + count_list (queued (final ?c es)) DoDestroy
        + (if p_instance (final ?c es) = None then 0 else 1)
       \<le> count_list es NgOnDestroy + length (emitted ?c es)"
    using destroy_bound [of ?c es] by (simp add: created_fields)
  show ?thesis
    using A B C D E F G H by blast
qed

theorem dispose_before_resolution_witness:
  "CreateError \<notin> set ([CallFocus, CreateComplete] @ [Init ''A'' :: string event])
   \<and> NgOnDestroy \<notin> set ([CallFocus, CreateComplete] @ [Init ''A'' :: string event])
   \<and> emitted (created ''card'' 0) ([CallFocus, CreateComplete] @ NgOnDestroy # [Init ''A'']) = []
   \<and> inner_active (final (created ''card'' 0) ([CallFocus, CreateComplete] @ NgOnDestroy # [Init ''A'']))
   \<and> calm (CallBlur :: string event) \<and> calm (Fire 1 EvReady :: string event)
   \<and> calm (CreateComplete :: string event)
   \<and> calls DoDestroy (effects (created ''card'' 0)
        ([CallFocus, CreateComplete] @ NgOnDestroy # [Init ''A''] @ CreateNext 1
           # [CallBlur, Fire 1 EvReady, CreateComplete])) = [1]
   \<and> pending (final (created ''card'' 0) [CallFocus, CreateComplete :: string event])
   \<and> snd (step (final (created ''card'' 0) [CallFocus, CreateComplete :: string event])
        (NgOnDestroy :: string event)) = []
   \<and> emitted (created ''card'' 0) [NgOnDestroy, Init ''A'', NgOnDestroy, CreateComplete, CallClear] = []
   \<and> calls DoDestroy (effects (created ''card'' 0)
        [NgOnDestroy, Init ''A'', NgOnDestroy, CreateComplete, CallClear]) = []"
proof -
  let ?pre = "[CallFocus, CreateComplete :: string event]"
  let ?mid = "[Init ''A'' :: string event]"
  let ?post = "[CallBlur, Fire 1 EvReady, CreateComplete :: string event]"
  let ?es = "[NgOnDestroy, Init ''A'', NgOnDestroy, CreateComplete, CallClear :: string event]"
  let ?s = "final (created ''card'' 0) ?pre"
  have h: "CreateError \<notin> set (?pre @ ?mid)" "NgOnDestroy \<notin> set (?pre @ ?mid)"
    "\<forall>e\<in>set ?post. calm e"
    by simp_all
  have i: "emitted (created ''card'' 0) (?pre @ NgOnDestroy # ?mid) = []"
    "inner_active (final (created ''card'' 0) (?pre @ NgOnDestroy # ?mid))"
    by (simp_all add: run_defs)
  have p: "pending ?s"
    by (simp add: run_defs pending_def)
  have e: "emitted (created ''card'' 0) ?es = []"
    by (simp add: run_defs)
  note t = dispose_before_resolution [of ?s "''card''" 0 ?es ?pre "[]" ?mid ?post 1]
  from t h i have a: "calls DoDestroy (effects (created ''card'' 0)
        (?pre @ NgOnDestroy # ?mid @ CreateNext 1 # ?post)) = [1]"
    by blast
  from t p have "(step ?s NgOnDestroy :: ctrl \<times> string effect list)
      = (unsubscribe (?s\<lparr> observers := observers ?s @ [Queued DoDestroy] \<rparr>), [])"
    by blast
  then have b: "snd (step ?s (NgOnDestroy :: string event)) = []"
    by (simp only: snd_conv)
  from t e have c: "calls DoDestroy (effects (created ''card'' 0) ?es) = []"
    by blast
  have q: "calm (CallBlur :: string event)" "calm (Fire 1 EvReady :: string event)"
    "calm (CreateComplete :: string event)"
    by simp_all
  from q h(1,2) i a p b e c show ?thesis by blast
qed

text \<open>
  The claim as stated fails in four ways.  When the observable of \<^verbatim>\<open>create\<close> fails
  after the disposal, the waiting \<^verbatim>\<open>destroy\<close> is lost, and an element that a retried
  pipeline mounts later is never destroyed.  Two disposals before the emission
  destroy the element twice; so do a second emission, which destroys the element it
  replaces once more and leaves the new one mounted, and a disposal after the
  emission.
\<close>

theorem dispose_not_once_counterexample:
  "mounts (effects (created ''card'' 0)
       [NgOnDestroy, Init ''A'', CreateError, CallFocus, Init ''B'', CreateNext 1]) = [1]
   \<and> calls DoDestroy (effects (created ''card'' 0)
       [NgOnDestroy, Init ''A'', CreateError, CallFocus, Init ''B'', CreateNext 1]) = []
   \<and> calls DoDestroy (effects (created ''card'' 0)
       [NgOnDestroy, NgOnDestroy, Init ''A'', CreateNext 1]) = [1, 1]
   \<and> calls DoDestroy (effects (created ''card'' 0)
       [NgOnDestroy, Init ''A'', CreateNext 1, CreateNext 2]) = [1, 1]
   \<and> mounts (effects (created ''card'' 0)
       [NgOnDestroy, Init ''A'', CreateNext 1, CreateNext 2]) = [1, 2]
   \<and> calls DoDestroy (effects (created ''card'' 0)
       [NgOnDestroy, Init ''A'', CreateNext 1, NgOnDestroy]) = [1, 1]"
  by (simp add: run_defs)

lemma p_instance_unsubscribe: "p_instance (unsubscribe s) = p_instance s"
  by (simp add: unsubscribe_def)

lemma dispose_stored:
  "p_instance s = Some h \<Longrightarrow>
     (step s NgOnDestroy :: ctrl \<times> 'o effect list) = (unsubscribe s, [Call h DoDestroy])"
  by (simp add: method_defs)

lemma dispose_repeated:
  "p_instance s = Some h \<Longrightarrow>
     (effects s (replicate n NgOnDestroy) :: 'o effect list) = replicate n (Call h DoDestroy)"
proof (induction n arbitrary: s)
  case 0
  then show ?case by simp
next
  case (Suc n)
  have st: "(step s NgOnDestroy :: ctrl \<times> 'o effect list) = (unsubscribe s, [Call h DoDestroy])"
    using Suc.prems by (rule dispose_stored)
  have "p_instance (unsubscribe s) = Some h"
    using Suc.prems by (simp add: p_instance_unsubscribe)
  then have "(effects (unsubscribe s) (replicate n NgOnDestroy) :: 'o effect list)
      = replicate n (Call h DoDestroy)"
    by (rule Suc.IH)
  then show ?case
    by (simp add: st del: step.simps)
qed

text \<open>
  Claim C5, as amended.  With an element stored, disposal calls \<^verbatim>\<open>destroy\<close> on it once,
  within the call, and cancels the constructor's subscription; the element stays
  stored.  Cancelling the closed subscription again changes nothing, but each further
  disposal calls \<^verbatim>\<open>destroy\<close> on the stored element once more: \<open>n\<close> disposals in a row
  make \<open>n\<close> calls.
\<close>

theorem dispose_after_resolution:
  "p_instance s = Some h \<longrightarrow>
     (step s NgOnDestroy :: ctrl \<times> 'o effect list) = (unsubscribe s, [Call h DoDestroy])
     \<and> p_instance (unsubscribe s) = Some h
     \<and> sub_closed (unsubscribe s)
     \<and> unsubscribe (unsubscribe s) = unsubscribe s
     \<and> (effects s (replicate n NgOnDestroy) :: 'o effect list) = replicate n (Call h DoDestroy)"
proof
  assume i: "p_instance s = Some h"
  have a: "sub_closed (unsubscribe s)" "unsubscribe (unsubscribe s) = unsubscribe s"
    by (simp_all add: unsubscribe_def)
  show "(step s NgOnDestroy :: ctrl \<times> 'o effect list) = (unsubscribe s, [Call h DoDestroy])
     \<and> p_instance (unsubscribe s) = Some h
     \<and> sub_closed (unsubscribe s)
     \<and> unsubscribe (unsubscribe s) = unsubscribe s
     \<and> (effects s (replicate n NgOnDestroy) :: 'o effect list) = replicate n (Call h DoDestroy)"
    using dispose_stored [OF i, where ?'o = 'o] dispose_repeated [OF i, of n, where ?'o = 'o] a i
    by (simp add: p_instance_unsubscribe del: step.simps)
qed

theorem dispose_after_resolution_witness:
  "p_instance (final (created ''card'' 0) [Init ''A'', CreateNext 1]) = Some 1
   \<and> (effects (final (created ''card'' 0) [Init ''A'', CreateNext 1]) (replicate 3 NgOnDestroy)
        :: string effect list) = replicate 3 (Call 1 DoDestroy)"
proof -
  let ?s = "final (created ''card'' 0) [Init ''A'', CreateNext 1 :: string event]"
  have i: "p_instance ?s = Some 1"
    by (simp add: run_defs)
  note t = dispose_after_resolution [of ?s 1 3, where ?'o = string]
  from t i have "(effects ?s (replicate 3 NgOnDestroy) :: string effect list) = replicate 3 (Call 1 DoDestroy)"
    by blast
  with i show ?thesis by blast
qed

text \<open>
  The claim as stated fails on a second disposal: the stored element is never
  cleared and no disposal is recorded, so \<^verbatim>\<open>destroy\<close> is called on it again.
\<close>

theorem dispose_twice_counterexample:
  "calls DoDestroy (effects (created ''card'' 0) [Init ''A'', CreateNext 1, NgOnDestroy, NgOnDestroy])
     = [1, 1]
   \<and> effects (created ''card'' 0) [Init ''A'', CreateNext 1, NgOnDestroy, NgOnDestroy]
     = [Create ''card'' ''A'', Hook 1 EvReady, Hook 1 EvFocus, Hook 1 EvBlur, Mount 1 0,
        Call 1 DoDestroy, Call 1 DoDestroy]"
  by (simp add: run_defs)

end
